theory Spec2Isabelle
  imports Main "HOL-Library.Monad_Syntax"
begin

section \<open>Go strings, bytes and run-time panics\<close>

text \<open>
  A Go \<^verbatim>\<open>string\<close> is a sequence of bytes; it is modelled as a \<^typ>\<open>string\<close>, a list of
  8-bit characters. \<open>byte c\<close> reads the byte \<open>c\<close> as the number Go compares it with.
  Every function of \<^verbatim>\<open>format.go\<close> returns an \<open>option\<close>: \<open>None\<close> stands for a
  run-time panic (index or slice bound out of range), \<open>Some r\<close> for a normal return of \<open>r\<close>.
\<close>

abbreviation byte :: "char \<Rightarrow> nat" where
  "byte c \<equiv> of_char c"

text \<open>\<^verbatim>\<open>s[i]\<close>: panics when \<open>i\<close> is out of range.\<close>

definition at :: "'a list \<Rightarrow> nat \<Rightarrow> 'a option" where
  "at s i = (if i < length s then Some (s ! i) else None)"

text \<open>\<^verbatim>\<open>s[i:]\<close> with an \<^verbatim>\<open>int\<close> index: panics unless \<open>0 \<le> i \<le> len(s)\<close>.\<close>

definition slice_from :: "'a list \<Rightarrow> int \<Rightarrow> 'a list option" where
  "slice_from s i = (if 0 \<le> i \<and> i \<le> int (length s) then Some (drop (nat i) s) else None)"

text \<open>
  The conversion \<^verbatim>\<open>string(r)\<close> of an integer (a \<^verbatim>\<open>rune\<close> or a \<^verbatim>\<open>byte\<close>) to a string:
  the UTF-8 encoding of the code point \<open>r\<close>; the replacement character U+FFFD for a
  surrogate or a value beyond U+10FFFF.
\<close>

definition runeToString :: "nat \<Rightarrow> string" where
  "runeToString r =
     (if r \<le> 0x7F then [char_of r]
      else if r \<le> 0x7FF then [char_of (0xC0 + r div 64), char_of (0x80 + r mod 64)]
      else if r > 0x10FFFF \<or> (0xD800 \<le> r \<and> r \<le> 0xDFFF) then [CHR 0xEF, CHR 0xBF, CHR 0xBD]
      else if r \<le> 0xFFFF then
        [char_of (0xE0 + r div 4096), char_of (0x80 + (r div 64) mod 64),
         char_of (0x80 + r mod 64)]
      else
        [char_of (0xF0 + r div 262144), char_of (0x80 + (r div 4096) mod 64),
         char_of (0x80 + (r div 64) mod 64), char_of (0x80 + r mod 64)])"

subsection \<open>The functions of packages \<^verbatim>\<open>strings\<close> and \<^verbatim>\<open>bytes\<close> that the file calls\<close>

text \<open>\<^verbatim>\<open>strings.HasPrefix(s, prefix)\<close> and \<^verbatim>\<open>strings.HasSuffix(s, suffix)\<close>.\<close>

definition HasPrefix :: "string \<Rightarrow> string \<Rightarrow> bool" where
  "HasPrefix s pre = (length pre \<le> length s \<and> take (length pre) s = pre)"

definition HasSuffix :: "string \<Rightarrow> string \<Rightarrow> bool" where
  "HasSuffix s suf = (length suf \<le> length s \<and> drop (length s - length suf) s = suf)"

text \<open>
  \<^verbatim>\<open>strings.Index(s, substr)\<close>: the index of the first occurrence of \<open>substr\<close> in \<open>s\<close>,
  or \<open>-1\<close>. \<open>Index_from\<close> carries the number of bytes already passed.
\<close>

fun Index_from :: "nat \<Rightarrow> string \<Rightarrow> string \<Rightarrow> int" where
  "Index_from k [] substr = (if substr = [] then int k else -1)"
| "Index_from k (c # cs) substr =
     (if HasPrefix (c # cs) substr then int k else Index_from (Suc k) cs substr)"

definition Index :: "string \<Rightarrow> string \<Rightarrow> int" where
  "Index s substr = Index_from 0 s substr"

text \<open>\<^verbatim>\<open>strings.Contains(s, substr)\<close> is \<^verbatim>\<open>Index(s, substr) >= 0\<close>.\<close>

definition Contains :: "string \<Rightarrow> string \<Rightarrow> bool" where
  "Contains s substr = (Index s substr \<ge> 0)"

text \<open>\<^verbatim>\<open>bytes.IndexByte(b, c)\<close>: the index of the first \<open>c\<close> in \<open>b\<close>, or \<open>-1\<close>.\<close>

fun IndexByte_from :: "nat \<Rightarrow> string \<Rightarrow> char \<Rightarrow> int" where
  "IndexByte_from k [] c = -1"
| "IndexByte_from k (b # bs) c = (if b = c then int k else IndexByte_from (Suc k) bs c)"

definition IndexByte :: "string \<Rightarrow> char \<Rightarrow> int" where
  "IndexByte b c = IndexByte_from 0 b c"

text \<open>
  \<^verbatim>\<open>strings.Replace(s, old, new, -1)\<close> for a non-empty \<open>old\<close> (every call of the file
  passes one): the non-overlapping occurrences of \<open>old\<close>, found from left to right, are
  replaced by \<open>new\<close>.
\<close>

function Replace :: "string \<Rightarrow> string \<Rightarrow> string \<Rightarrow> string" where
  "Replace [] old new = []"
| "Replace (c # cs) old new =
     (if old \<noteq> [] \<and> HasPrefix (c # cs) old
      then new @ Replace (drop (length old) (c # cs)) old new
      else c # Replace cs old new)"
  by pat_completeness auto
termination
  by (relation "measure (\<lambda>(s, old, new). length s)") auto

text \<open>
  \<^verbatim>\<open>strings.Split(s, sep)\<close> for a non-empty \<open>sep\<close>: the pieces of \<open>s\<close> between the
  non-overlapping occurrences of \<open>sep\<close>, one more piece than there are occurrences.
\<close>

function Split_acc :: "string \<Rightarrow> string \<Rightarrow> string \<Rightarrow> string list" where
  "Split_acc piece [] sep = [piece]"
| "Split_acc piece (c # cs) sep =
     (if sep \<noteq> [] \<and> HasPrefix (c # cs) sep
      then piece # Split_acc [] (drop (length sep) (c # cs)) sep
      else Split_acc (piece @ [c]) cs sep)"
  by pat_completeness auto
termination
  by (relation "measure (\<lambda>(piece, s, sep). length s)") auto

definition Split :: "string \<Rightarrow> string \<Rightarrow> string list" where
  "Split s sep = Split_acc [] s sep"

section \<open>The format-code table\<close>

record ircFmtCode =
  aliases :: "string list"
  val :: string

definition codes :: "ircFmtCode list" where
  "codes =
    [\<lparr>aliases = [''white''], val = [CHR 0x03, CHR ''0'', CHR ''0'']\<rparr>,
     \<lparr>aliases = [''black''], val = [CHR 0x03, CHR ''0'', CHR ''1'']\<rparr>,
     \<lparr>aliases = [''blue'', ''navy''], val = [CHR 0x03, CHR ''0'', CHR ''2'']\<rparr>,
     \<lparr>aliases = [''green''], val = [CHR 0x03, CHR ''0'', CHR ''3'']\<rparr>,
     \<lparr>aliases = [''red''], val = [CHR 0x03, CHR ''0'', CHR ''4'']\<rparr>,
     \<lparr>aliases = [''brown'', ''maroon''], val = [CHR 0x03, CHR ''0'', CHR ''5'']\<rparr>,
     \<lparr>aliases = [''purple''], val = [CHR 0x03, CHR ''0'', CHR ''6'']\<rparr>,
     \<lparr>aliases = [''orange'', ''olive'', ''gold''], val = [CHR 0x03, CHR ''0'', CHR ''7'']\<rparr>,
     \<lparr>aliases = [''yellow''], val = [CHR 0x03, CHR ''0'', CHR ''8'']\<rparr>,
     \<lparr>aliases = [''lightgreen'', ''lime''], val = [CHR 0x03, CHR ''0'', CHR ''9'']\<rparr>,
     \<lparr>aliases = [''teal''], val = [CHR 0x03, CHR ''1'', CHR ''0'']\<rparr>,
     \<lparr>aliases = [''cyan''], val = [CHR 0x03, CHR ''1'', CHR ''1'']\<rparr>,
     \<lparr>aliases = [''lightblue'', ''royal''], val = [CHR 0x03, CHR ''1'', CHR ''2'']\<rparr>,
     \<lparr>aliases = [''lightpurple'', ''pink'', ''fuchsia''], val = [CHR 0x03, CHR ''1'', CHR ''3'']\<rparr>,
     \<lparr>aliases = [''grey'', ''gray''], val = [CHR 0x03, CHR ''1'', CHR ''4'']\<rparr>,
     \<lparr>aliases = [''lightgrey'', ''silver''], val = [CHR 0x03, CHR ''1'', CHR ''5'']\<rparr>,
     \<lparr>aliases = [''bold'', ''b''], val = [CHR 0x02]\<rparr>,
     \<lparr>aliases = [''italic'', ''i''], val = [CHR 0x1D]\<rparr>,
     \<lparr>aliases = [''reset'', ''r''], val = [CHR 0x0F]\<rparr>,
     \<lparr>aliases = [''clear'', ''c''], val = [CHR 0x03]\<rparr>,
     \<lparr>aliases = [''reverse''], val = [CHR 0x16]\<rparr>,
     \<lparr>aliases = [''underline'', ''ul''], val = [CHR 0x1F]\<rparr>,
     \<lparr>aliases = [''ctcp''], val = [CHR 0x01]\<rparr>]"

section \<open>ToRFC1459\<close>

text \<open>
  The loop of \<^verbatim>\<open>ToRFC1459\<close>, from index \<open>i\<close> with the output built so far. A byte in
  \<open>65..94\<close> is appended as \<^verbatim>\<open>string(rune(input[i]) + 32)\<close>, any other byte as
  \<^verbatim>\<open>string(input[i])\<close>: both are conversions of an integer to a string.
\<close>

function ToRFC1459_loop :: "string \<Rightarrow> nat \<Rightarrow> string \<Rightarrow> string option" where
  "ToRFC1459_loop input i out =
     (if i < length input then
        (case at input i of
           None \<Rightarrow> None
         | Some b \<Rightarrow>
             if byte b \<ge> 65 \<and> byte b \<le> 94
             then ToRFC1459_loop input (i + 1) (out @ runeToString (byte b + 32))
             else ToRFC1459_loop input (i + 1) (out @ runeToString (byte b)))
      else Some out)"
  by pat_completeness auto
termination
  by (relation "measure (\<lambda>(input, i, out). length input - i)") auto

definition ToRFC1459 :: "string \<Rightarrow> string option" where
  "ToRFC1459 input = ToRFC1459_loop input 0 []"

section \<open>Fmt, TrimFmt and StripRaw\<close>

text \<open>
  \<^verbatim>\<open>Fmt\<close> and \<^verbatim>\<open>TrimFmt\<close> are the same two nested loops and differ only in the text
  that replaces a token: \<^verbatim>\<open>codes[i].val\<close> in \<^verbatim>\<open>Fmt\<close>, the empty string in
  \<^verbatim>\<open>TrimFmt\<close>. The loops below take that choice as \<open>new\<close>.

  The inner loop over \<^verbatim>\<open>codes[i].aliases\<close>, from index \<open>a\<close>.
\<close>

function fmt_aliases_loop :: "(ircFmtCode \<Rightarrow> string) \<Rightarrow> nat \<Rightarrow> nat \<Rightarrow> string \<Rightarrow> string option" where
  "fmt_aliases_loop new i a text =
     (case at codes i of
        None \<Rightarrow> None
      | Some code \<Rightarrow>
          if a < length (aliases code) then
            (case at (aliases code) a of
               None \<Rightarrow> None
             | Some alias \<Rightarrow>
                 fmt_aliases_loop new i (a + 1)
                   (Replace text (''{'' @ alias @ ''}'') (new code)))
          else Some text)"
  by pat_completeness auto
termination
  by (relation "measure (\<lambda>(new, i, a, text). length (aliases (codes ! i)) - a)")
    (auto simp: at_def split: if_splits)

text \<open>The scan for a remaining \<^verbatim>\<open>{\<close> (byte \<open>0x7B\<close>), from index \<open>c\<close>: the value of \<^verbatim>\<open>more\<close>.\<close>

function more_loop :: "string \<Rightarrow> nat \<Rightarrow> bool option" where
  "more_loop text c =
     (if c < length text then
        (case at text c of
           None \<Rightarrow> None
         | Some b \<Rightarrow> if byte b = 0x7B then Some True else more_loop text (c + 1))
      else Some False)"
  by pat_completeness auto
termination
  by (relation "measure (\<lambda>(text, c). length text - c)") auto

text \<open>The outer loop over \<^verbatim>\<open>codes\<close>, from index \<open>i\<close>, with its early return.\<close>

function fmt_loop :: "(ircFmtCode \<Rightarrow> string) \<Rightarrow> nat \<Rightarrow> string \<Rightarrow> string option" where
  "fmt_loop new i text =
     (if i < length codes then
        (case fmt_aliases_loop new i 0 text of
           None \<Rightarrow> None
         | Some text' \<Rightarrow>
             (case more_loop text' 0 of
                None \<Rightarrow> None
              | Some found \<Rightarrow> if \<not> found then Some text' else fmt_loop new (i + 1) text'))
      else Some text)"
  by pat_completeness auto
termination
  by (relation "measure (\<lambda>(new, i, text). length codes - i)") auto

definition Fmt :: "string \<Rightarrow> string option" where
  "Fmt text = fmt_loop val 0 text"

definition TrimFmt :: "string \<Rightarrow> string option" where
  "TrimFmt text = fmt_loop (\<lambda>code. []) 0 text"

function StripRaw_loop :: "nat \<Rightarrow> string \<Rightarrow> string option" where
  "StripRaw_loop i text =
     (if i < length codes then
        (case at codes i of
           None \<Rightarrow> None
         | Some code \<Rightarrow> StripRaw_loop (i + 1) (Replace text (val code) []))
      else Some text)"
  by pat_completeness auto
termination
  by (relation "measure (\<lambda>(i, text). length codes - i)") auto

definition StripRaw :: "string \<Rightarrow> string option" where
  "StripRaw text = StripRaw_loop 0 text"

section \<open>IsValidChannel\<close>

text \<open>The check of the channel ID, \<^verbatim>\<open>for i := 1; i < 6; i++\<close>: \<open>Some False\<close> is its
  \<^verbatim>\<open>return false\<close>, \<open>Some True\<close> the end of the loop.\<close>

function channel_id_loop :: "string \<Rightarrow> nat \<Rightarrow> bool option" where
  "channel_id_loop channel i =
     (if i < 6 then
        (case at channel i of
           None \<Rightarrow> None
         | Some b \<Rightarrow>
             if (byte b < 0x30 \<or> byte b > 0x39) \<and> (byte b < 0x41 \<or> byte b > 0x5A)
             then Some False
             else channel_id_loop channel (i + 1))
      else Some True)"
  by pat_completeness auto
termination
  by (relation "measure (\<lambda>(channel, i). 6 - i)") auto

definition bad :: string where
  "bad = [CHR 0x00, CHR 0x07, CHR 0x0D, CHR 0x0A, CHR 0x20, CHR 0x2C, CHR 0x3A]"

text \<open>The check for invalid octets, followed by the final \<^verbatim>\<open>return true\<close>.\<close>

function channel_bad_loop :: "string \<Rightarrow> nat \<Rightarrow> bool option" where
  "channel_bad_loop channel i =
     (if i < length channel then
        (case at channel i of
           None \<Rightarrow> None
         | Some b \<Rightarrow>
             if IndexByte bad b \<noteq> -1 then Some False else channel_bad_loop channel (i + 1))
      else Some True)"
  by pat_completeness auto
termination
  by (relation "measure (\<lambda>(channel, i). length channel - i)") auto

definition IsValidChannel :: "string \<Rightarrow> bool option" where
  "IsValidChannel channel =
     (if length channel \<le> 1 \<or> length channel > 50 then Some False
      else do {
        c0 \<leftarrow> at channel 0;
        if IndexByte [CHR 0x21, CHR 0x23, CHR 0x26, CHR 0x2A, CHR 0x2B] c0 = -1 then Some False
        else do {
          c0' \<leftarrow> at channel 0;
          id_ok \<leftarrow>
            (if byte c0' = 0x21
             then (if length channel < 7 then Some False else channel_id_loop channel 1)
             else Some True);
          if \<not> id_ok then Some False else channel_bad_loop channel 1
        }
      })"

section \<open>IsValidNick and IsValidUser\<close>

function nick_loop :: "string \<Rightarrow> nat \<Rightarrow> bool option" where
  "nick_loop nick i =
     (if i < length nick then
        (case at nick i of
           None \<Rightarrow> None
         | Some b \<Rightarrow>
             if (byte b < 0x41 \<or> byte b > 0x7D) \<and> (byte b < 0x30 \<or> byte b > 0x39) \<and> byte b \<noteq> 0x2D
             then Some False
             else nick_loop nick (i + 1))
      else Some True)"
  by pat_completeness auto
termination
  by (relation "measure (\<lambda>(nick, i). length nick - i)") auto

definition IsValidNick :: "string \<Rightarrow> bool option" where
  "IsValidNick nick =
     (if length nick \<le> 0 then Some False
      else do {
        nick' \<leftarrow> ToRFC1459 nick;
        n0 \<leftarrow> at nick' 0;
        if byte n0 < 0x41 \<or> byte n0 > 0x7D then Some False else nick_loop nick' 1
      })"

function user_loop :: "string \<Rightarrow> nat \<Rightarrow> bool option" where
  "user_loop name i =
     (if i < length name then
        (case at name i of
           None \<Rightarrow> None
         | Some b \<Rightarrow>
             if (byte b < 0x41 \<or> byte b > 0x7D) \<and> (byte b < 0x30 \<or> byte b > 0x39)
                \<and> byte b \<noteq> 0x2D \<and> byte b \<noteq> 0x2E
             then Some False
             else user_loop name (i + 1))
      else Some True)"
  by pat_completeness auto
termination
  by (relation "measure (\<lambda>(name, i). length name - i)") auto

text \<open>\<^verbatim>\<open>IsValidUser\<close> from the check of the first index on, once a leading \<^verbatim>\<open>~\<close> is cut.\<close>

definition IsValidUser_checks :: "string \<Rightarrow> bool option" where
  "IsValidUser_checks name =
     do {
       n0 \<leftarrow> at name 0;
       if (byte n0 < 0x41 \<or> byte n0 > 0x4A) \<and> (byte n0 < 0x61 \<or> byte n0 > 0x7A)
          \<and> (byte n0 < 0x30 \<or> byte n0 > 0x39)
       then Some False
       else user_loop name 1
     }"

definition IsValidUser :: "string \<Rightarrow> bool option" where
  "IsValidUser name =
     (if length name \<le> 0 then Some False
      else do {
        name' \<leftarrow> ToRFC1459 name;
        n0 \<leftarrow> at name' 0;
        if byte n0 = 0x7E then
          (if length name' < 2 then Some False
           else do { name'' \<leftarrow> slice_from name' 1; IsValidUser_checks name'' })
        else IsValidUser_checks name'
      })"

section \<open>Glob\<close>

definition globChar :: string where
  "globChar = ''*''"

text \<open>\<^verbatim>\<open>parts[i]\<close> with an \<^verbatim>\<open>int\<close> index.\<close>

definition at_int :: "'a list \<Rightarrow> int \<Rightarrow> 'a option" where
  "at_int xs i = (if 0 \<le> i \<and> i < int (length xs) then Some (xs ! nat i) else None)"

text \<open>A loop either leaves the function with a result or hands its state on.\<close>

datatype ('r, 's) flow = Return 'r | Next 's

text \<open>The loop over the middle section, \<^verbatim>\<open>for i := 1; i < last; i++\<close>.\<close>

function Glob_middle :: "string list \<Rightarrow> int \<Rightarrow> int \<Rightarrow> string \<Rightarrow> (bool, string) flow option" where
  "Glob_middle parts last' i input =
     (if i < last' then
        (case at_int parts i of
           None \<Rightarrow> None
         | Some part \<Rightarrow>
             if \<not> Contains input part then Some (Return False)
             else
               (case slice_from input (Index input part + int (length part)) of
                  None \<Rightarrow> None
                | Some input' \<Rightarrow> Glob_middle parts last' (i + 1) input'))
      else Some (Next input))"
  by pat_completeness auto
termination
  by (relation "measure (\<lambda>(parts, last', i, input). nat (last' - i))") auto

definition Glob :: "string \<Rightarrow> string \<Rightarrow> bool option" where
  "Glob input match =
     (if match = [] then Some (input = match)
      else if match = globChar then Some True
      else
        let parts = Split match globChar in
        if length parts = 1 then Some (input = match)
        else
          let leadingGlob = HasPrefix match globChar;
              trailingGlob = HasSuffix match globChar;
              last' = int (length parts) - 1
          in do {
            no_prefix \<leftarrow>
              (if \<not> leadingGlob
               then do { part \<leftarrow> at_int parts 0; Some (\<not> HasPrefix input part) }
               else Some False);
            if no_prefix then Some False
            else do {
              middle \<leftarrow> Glob_middle parts last' 1 input;
              case middle of
                Return r \<Rightarrow> Some r
              | Next input' \<Rightarrow>
                  if trailingGlob then Some True
                  else do { part \<leftarrow> at_int parts last'; Some (HasSuffix input' part) }
            }
          })"

section \<open>Vocabulary of the properties\<close>

text \<open>What one step of the loop of \<^verbatim>\<open>ToRFC1459\<close> appends for the byte \<open>b\<close>.\<close>

definition folded :: "char \<Rightarrow> string" where
  "folded b =
     (if byte b \<ge> 65 \<and> byte b \<le> 94 then runeToString (byte b + 32) else runeToString (byte b))"

text \<open>The classes of ASCII characters, by their characters.\<close>

definition ascii_digit :: "char \<Rightarrow> bool" where
  "ascii_digit b = (byte CHR ''0'' \<le> byte b \<and> byte b \<le> byte CHR ''9'')"

definition ascii_upper :: "char \<Rightarrow> bool" where
  "ascii_upper b = (byte CHR ''A'' \<le> byte b \<and> byte b \<le> byte CHR ''Z'')"

definition ascii_lower :: "char \<Rightarrow> bool" where
  "ascii_lower b = (byte CHR ''a'' \<le> byte b \<and> byte b \<le> byte CHR ''z'')"

text \<open>
  Case folding as the specification describes it (its section 4.3, \<open>FoldCase\<close>): a map over
  the bytes that adds 32 to a byte in \<open>65..94\<close> and passes every other byte through.
\<close>

definition FoldCase_byte :: "char \<Rightarrow> char" where
  "FoldCase_byte b = (if 65 \<le> byte b \<and> byte b \<le> 94 then char_of (byte b + 32) else b)"

definition FoldCase_spec :: "string \<Rightarrow> string" where
  "FoldCase_spec s = map FoldCase_byte s"

text \<open>
  The rule for a nickname, on a case-folded form \<open>f\<close>: the first byte is in \<open>0x41..0x7D\<close>,
  every later byte is in that range, a digit or a hyphen.
\<close>

definition nick_range :: "char \<Rightarrow> bool" where
  "nick_range b = (0x41 \<le> byte b \<and> byte b \<le> 0x7D)"

definition nick_rule :: "string \<Rightarrow> bool" where
  "nick_rule f =
     (f \<noteq> [] \<and> nick_range (f ! 0) \<and>
      (\<forall>i. 1 \<le> i \<and> i < length f \<longrightarrow>
         nick_range (f ! i) \<or> ascii_digit (f ! i) \<or> f ! i = CHR ''-''))"

text \<open>
  The rule for a user name, on a case-folded form \<open>f\<close>: a leading \<^verbatim>\<open>~\<close> is cut, what is
  left is not empty, its first byte is alphanumeric, and every later byte is in the range
  of nicknames, a digit, a hyphen or a period.
\<close>

definition alphanumeric :: "char \<Rightarrow> bool" where
  "alphanumeric b = (ascii_digit b \<or> ascii_upper b \<or> ascii_lower b)"

definition user_rule :: "string \<Rightarrow> bool" where
  "user_rule f =
     (let g = (if f \<noteq> [] \<and> f ! 0 = CHR ''~'' then drop 1 f else f) in
      g \<noteq> [] \<and> alphanumeric (g ! 0) \<and>
      (\<forall>i. 1 \<le> i \<and> i < length g \<longrightarrow>
         nick_range (g ! i) \<or> ascii_digit (g ! i) \<or> g ! i = CHR ''-'' \<or> g ! i = CHR ''.''))"

text \<open>A rule on the first byte and a rule on every later byte, of a non-empty string.\<close>

definition head_tail_rule :: "(char \<Rightarrow> bool) \<Rightarrow> (char \<Rightarrow> bool) \<Rightarrow> string \<Rightarrow> bool" where
  "head_tail_rule P Q g = (g \<noteq> [] \<and> P (hd g) \<and> list_all Q (tl g))"

text \<open>
  The loops of \<^verbatim>\<open>Fmt\<close>, \<^verbatim>\<open>TrimFmt\<close> and \<^verbatim>\<open>StripRaw\<close> as functions on the entries that
  are still to be visited: \<open>replace_aliases\<close> is one run of the inner loop, \<open>fmt_run\<close> the
  outer loop with its early return, \<open>strip_run\<close> the loop of \<^verbatim>\<open>StripRaw\<close>.
\<close>

definition replace_aliases :: "(ircFmtCode \<Rightarrow> string) \<Rightarrow> ircFmtCode \<Rightarrow> string list \<Rightarrow> string \<Rightarrow> string" where
  "replace_aliases new code as t =
     foldl (\<lambda>t alias. Replace t (''{'' @ alias @ ''}'') (new code)) t as"

fun fmt_run :: "(ircFmtCode \<Rightarrow> string) \<Rightarrow> ircFmtCode list \<Rightarrow> string \<Rightarrow> string" where
  "fmt_run new [] t = t"
| "fmt_run new (code # cs) t =
     (let t' = replace_aliases new code (aliases code) t
      in if CHR ''{'' \<notin> set t' then t' else fmt_run new cs t')"

definition strip_run :: "ircFmtCode list \<Rightarrow> string \<Rightarrow> string" where
  "strip_run cs t = foldl (\<lambda>t code. Replace t (val code) []) t cs"

text \<open>The markup token of an alias, and the tokens of the table in the order of the loops.\<close>

definition token :: "string \<Rightarrow> string" where
  "token alias = ''{'' @ alias @ ''}''"

definition tokens :: "string list" where
  "tokens = concat (map (\<lambda>code. map token (aliases code)) codes)"

text \<open>
  A string has no nested braces when no \<^verbatim>\<open>{\<close> is followed by another \<^verbatim>\<open>{\<close> before the
  next \<^verbatim>\<open>}\<close>. \<open>closes_first cs\<close> looks at what follows a \<^verbatim>\<open>{\<close>: the next brace, if
  there is one, is a \<^verbatim>\<open>}\<close>.
\<close>

fun closes_first :: "string \<Rightarrow> bool" where
  "closes_first [] = True"
| "closes_first (c # cs) =
     (if c = CHR ''}'' then True else if c = CHR ''{'' then False else closes_first cs)"

fun unnested :: "string \<Rightarrow> bool" where
  "unnested [] = True"
| "unnested (c # cs) = (if c = CHR ''{'' then closes_first cs \<and> unnested cs else unnested cs)"

text \<open>
  The condition of the specification on \<^verbatim>\<open>Glob\<close>, for a pattern with a \<^verbatim>\<open>*\<close> that
  does not begin with one: the input starts with the first part; what is left after the
  first part holds each interior part in turn, each looked for after the first occurrence
  of the one before; and what is left ends with the last part, unless the pattern ends
  with \<^verbatim>\<open>*\<close>.
\<close>

fun interior_claimed :: "string list \<Rightarrow> string \<Rightarrow> string option" where
  "interior_claimed [] rest = Some rest"
| "interior_claimed (part # ps) rest =
     (if Contains rest part
      then interior_claimed ps (drop (nat (Index rest part) + length part) rest)
      else None)"

definition Glob_claimed :: "string \<Rightarrow> string \<Rightarrow> bool" where
  "Glob_claimed input pattern =
     (let parts = Split pattern globChar in
      HasPrefix input (hd parts) \<and>
      (case interior_claimed (butlast (tl parts)) (drop (length (hd parts)) input) of
         None \<Rightarrow> False
       | Some rest \<Rightarrow> HasSuffix pattern globChar \<or> HasSuffix rest (last parts)))"

section \<open>Bytes\<close>

declare ToRFC1459_loop.simps [simp del] fmt_aliases_loop.simps [simp del]
  more_loop.simps [simp del] fmt_loop.simps [simp del] StripRaw_loop.simps [simp del]
  channel_id_loop.simps [simp del] channel_bad_loop.simps [simp del]
  nick_loop.simps [simp del] user_loop.simps [simp del] Glob_middle.simps [simp del]

lemma byte_char_of: "n < 256 \<Longrightarrow> byte (char_of n) = n"
  by simp

lemma byte_eq_iff: "byte b = byte c \<longleftrightarrow> b = c"
  by (rule of_char_eq_iff)

lemma byte_open_brace: "byte b = 0x7B \<longleftrightarrow> b = CHR ''{''"
proof -
  have "byte (CHR ''{'') = 0x7B" by simp
  then show ?thesis by (metis byte_eq_iff)
qed

lemma byte_bang: "byte b = 0x21 \<longleftrightarrow> b = CHR ''!''"
proof -
  have "byte (CHR ''!'') = 0x21" by simp
  then show ?thesis by (metis byte_eq_iff)
qed

lemma byte_tilde: "byte b = 0x7E \<longleftrightarrow> b = CHR ''~''"
proof -
  have "byte (CHR ''~'') = 0x7E" by simp
  then show ?thesis by (metis byte_eq_iff)
qed

lemma IndexByte_from_absent: "IndexByte_from k bs c = -1 \<longleftrightarrow> c \<notin> set bs"
  by (induction bs arbitrary: k) auto

lemma IndexByte_absent: "IndexByte bs c = -1 \<longleftrightarrow> c \<notin> set bs"
  by (simp add: IndexByte_def IndexByte_from_absent)

text \<open>A property of the bytes from index \<open>i\<close> on, by index.\<close>

lemma all_drop_nth:
  "(\<forall>b \<in> set (drop i s). P b) = (\<forall>j. i \<le> j \<and> j < length s \<longrightarrow> P (s ! j))"
proof
  assume l: "\<forall>b \<in> set (drop i s). P b"
  show "\<forall>j. i \<le> j \<and> j < length s \<longrightarrow> P (s ! j)"
  proof (intro allI impI)
    fix j assume j: "i \<le> j \<and> j < length s"
    then have "s ! j = drop i s ! (j - i)" and "j - i < length (drop i s)"
      by auto
    then have "s ! j \<in> set (drop i s)"
      by (metis nth_mem)
    with l show "P (s ! j)" by blast
  qed
next
  assume r: "\<forall>j. i \<le> j \<and> j < length s \<longrightarrow> P (s ! j)"
  show "\<forall>b \<in> set (drop i s). P b"
  proof
    fix b assume "b \<in> set (drop i s)"
    then obtain k where k: "k < length (drop i s)" "b = drop i s ! k"
      by (metis in_set_conv_nth)
    then have "b = s ! (i + k)" and "i + k < length s"
      by simp_all
    with r show "P b" by simp
  qed
qed

section \<open>The loops, in closed form\<close>

lemma ToRFC1459_loop_eq:
  "ToRFC1459_loop input i out = Some (out @ concat (map folded (drop i input)))"
proof (induction input i out rule: ToRFC1459_loop.induct)
  case (1 input i out)
  show ?case
  proof (cases "i < length input")
    case True
    then have d: "drop i input = input ! i # drop (Suc i) input"
      by (simp add: Cons_nth_drop_Suc)
    have f: "folded (input ! i) = (if byte (input ! i) \<ge> 65 \<and> byte (input ! i) \<le> 94
       then runeToString (byte (input ! i) + 32) else runeToString (byte (input ! i)))"
      by (simp add: folded_def)
    show ?thesis
      using True 1 by (subst ToRFC1459_loop.simps) (simp add: at_def d f)
  next
    case False
    then show ?thesis by (subst ToRFC1459_loop.simps) simp
  qed
qed

lemma ToRFC1459_eq: "ToRFC1459 input = Some (concat (map folded input))"
  by (simp add: ToRFC1459_def ToRFC1459_loop_eq)

lemma nick_loop_eq:
  "nick_loop nick i = Some (\<forall>b \<in> set (drop i nick).
     \<not> ((byte b < 0x41 \<or> byte b > 0x7D) \<and> (byte b < 0x30 \<or> byte b > 0x39) \<and> byte b \<noteq> 0x2D))"
proof (induction nick i rule: nick_loop.induct)
  case (1 nick i)
  show ?case
  proof (cases "i < length nick")
    case False
    then show ?thesis by (subst nick_loop.simps) simp
  next
    case True
    then have d: "drop i nick = nick ! i # drop (Suc i) nick"
      by (simp add: Cons_nth_drop_Suc)
    show ?thesis
      using True 1 [of "nick ! i"] by (subst nick_loop.simps) (simp add: at_def d)
  qed
qed

lemma user_loop_eq:
  "user_loop name i = Some (\<forall>b \<in> set (drop i name).
     \<not> ((byte b < 0x41 \<or> byte b > 0x7D) \<and> (byte b < 0x30 \<or> byte b > 0x39)
        \<and> byte b \<noteq> 0x2D \<and> byte b \<noteq> 0x2E))"
proof (induction name i rule: user_loop.induct)
  case (1 name i)
  show ?case
  proof (cases "i < length name")
    case False
    then show ?thesis by (subst user_loop.simps) simp
  next
    case True
    then have d: "drop i name = name ! i # drop (Suc i) name"
      by (simp add: Cons_nth_drop_Suc)
    show ?thesis
      using True 1 [of "name ! i"] by (subst user_loop.simps) (simp add: at_def d)
  qed
qed

lemma channel_bad_loop_eq:
  "channel_bad_loop channel i = Some (\<forall>b \<in> set (drop i channel). IndexByte bad b = -1)"
proof (induction channel i rule: channel_bad_loop.induct)
  case (1 channel i)
  show ?case
  proof (cases "i < length channel")
    case False
    then show ?thesis by (subst channel_bad_loop.simps) simp
  next
    case True
    then have d: "drop i channel = channel ! i # drop (Suc i) channel"
      by (simp add: Cons_nth_drop_Suc)
    show ?thesis
      using True 1 [of "channel ! i"] by (subst channel_bad_loop.simps) (simp add: at_def d)
  qed
qed

lemma more_loop_eq:
  "more_loop t c = Some (\<exists>b \<in> set (drop c t). byte b = 0x7B)"
proof (induction t c rule: more_loop.induct)
  case (1 t c)
  show ?case
  proof (cases "c < length t")
    case False
    then show ?thesis by (subst more_loop.simps) simp
  next
    case True
    then have d: "drop c t = t ! c # drop (Suc c) t"
      by (simp add: Cons_nth_drop_Suc)
    show ?thesis
      using True 1 [of "t ! c"] by (subst more_loop.simps) (simp add: at_def d)
  qed
qed

text \<open>The channel-ID loop reads the indices below 6, whatever the length.\<close>

lemma channel_id_loop_eq:
  "6 \<le> length channel \<Longrightarrow> channel_id_loop channel i =
     Some (\<forall>b \<in> set (drop i (take 6 channel)).
       \<not> ((byte b < 0x30 \<or> byte b > 0x39) \<and> (byte b < 0x41 \<or> byte b > 0x5A)))"
proof (induction channel i rule: channel_id_loop.induct)
  case (1 channel i)
  show ?case
  proof (cases "i < 6")
    case False
    then show ?thesis by (subst channel_id_loop.simps) simp
  next
    case True
    with "1.prems" have "i < length (take 6 channel)" by simp
    then have "drop i (take 6 channel) = take 6 channel ! i # drop (Suc i) (take 6 channel)"
      by (rule Cons_nth_drop_Suc [symmetric])
    with True have d: "drop i (take 6 channel) = channel ! i # drop (Suc i) (take 6 channel)"
      by simp
    show ?thesis
      using True 1 by (subst channel_id_loop.simps) (simp add: at_def d)
  qed
qed


section \<open>Case folding\<close>

lemma folded_ascii: "byte b < 128 \<Longrightarrow> folded b = [FoldCase_byte b]"
  by (simp add: folded_def FoldCase_byte_def runeToString_def)

lemma runeToString_two:
  "128 \<le> n \<Longrightarrow> n < 256 \<Longrightarrow>
     runeToString n = [char_of (0xC0 + n div 64), char_of (0x80 + n mod 64)]"
  by (simp add: runeToString_def)

lemma folded_high:
  "128 \<le> byte b \<Longrightarrow>
     folded b = [char_of (0xC0 + byte b div 64), char_of (0x80 + byte b mod 64)]"
  using runeToString_two [of "byte b"] by (simp add: folded_def)

lemma two_byte_values:
  fixes n :: nat
  assumes "n < 256"
  shows "byte (char_of (192 + n div 64)) = 192 + n div 64"
    and "byte (char_of (128 + n mod 64)) = 128 + n mod 64"
proof -
  from assms have "192 + n div 64 < 256" by arith
  then show "byte (char_of (192 + n div 64)) = 192 + n div 64" by (rule byte_char_of)
  have "128 + n mod 64 < 256" by arith
  then show "byte (char_of (128 + n mod 64)) = 128 + n mod 64" by (rule byte_char_of)
qed

lemma FoldCase_byte_high: "128 \<le> byte b \<Longrightarrow> FoldCase_byte b = b"
  by (simp add: FoldCase_byte_def)

lemma byte_FoldCase_byte:
  "byte (FoldCase_byte b) = (if 65 \<le> byte b \<and> byte b \<le> 94 then byte b + 32 else byte b)"
  by (simp add: FoldCase_byte_def)

lemma folded_high_bytes:
  assumes "128 \<le> byte b" and "c \<in> set (folded b)"
  shows "128 \<le> byte c"
proof -
  have lt: "byte b < 256" by simp
  from assms have "c = char_of (192 + byte b div 64) \<or> c = char_of (128 + byte b mod 64)"
    by (simp add: folded_high)
  then show ?thesis
  proof
    assume "c = char_of (192 + byte b div 64)"
    then have "byte c = 192 + byte b div 64" by (simp only: two_byte_values [OF lt])
    then show ?thesis by arith
  next
    assume "c = char_of (128 + byte b mod 64)"
    then have "byte c = 128 + byte b mod 64" by (simp only: two_byte_values [OF lt])
    then show ?thesis by arith
  qed
qed

lemma folded_not_upper:
  assumes "c \<in> set (folded b)"
  shows "\<not> (65 \<le> byte c \<and> byte c \<le> 94)"
proof (cases "byte b < 128")
  case True
  with assms have "c = FoldCase_byte b" by (simp add: folded_ascii)
  then show ?thesis using True by (simp add: byte_FoldCase_byte)
next
  case False
  then have "128 \<le> byte b" by simp
  then have "128 \<le> byte c" using assms by (rule folded_high_bytes)
  then show ?thesis by simp
qed

lemma folded_nonempty: "folded b \<noteq> []"
  by (cases "byte b < 128") (simp_all add: folded_ascii folded_high)

lemma hd_folded_ascii: "byte b < 128 \<Longrightarrow> hd (folded b) = FoldCase_byte b"
  by (simp add: folded_ascii)

text \<open>A property that no byte from 128 on has cannot tell the two foldings apart.\<close>

lemma list_all_folded:
  assumes "\<And>c. 128 \<le> byte c \<Longrightarrow> \<not> P c"
  shows "list_all P (folded b) = P (FoldCase_byte b)"
proof (cases "byte b < 128")
  case True
  then show ?thesis by (simp add: folded_ascii)
next
  case False
  then have h: "128 \<le> byte b" by simp
  then have "\<not> P (FoldCase_byte b)" using assms by (simp add: FoldCase_byte_high)
  moreover have "\<not> list_all P (folded b)"
  proof -
    have "hd (folded b) \<in> set (folded b)" by (simp add: folded_nonempty)
    then have "\<not> P (hd (folded b))" using assms folded_high_bytes [OF h] by blast
    then show ?thesis using folded_nonempty [of b] by (cases "folded b") auto
  qed
  ultimately show ?thesis by simp
qed

lemma list_all_concat_folded:
  assumes "\<And>c. 128 \<le> byte c \<Longrightarrow> \<not> P c"
  shows "list_all P (concat (map folded s)) = list_all P (FoldCase_spec s)"
  by (induction s) (simp_all add: FoldCase_spec_def list_all_folded [OF assms])

lemma hd_folded_P:
  assumes "\<And>c. 128 \<le> byte c \<Longrightarrow> \<not> P c"
  shows "P (hd (folded b)) = P (FoldCase_byte b)"
proof (cases "byte b < 128")
  case True
  then show ?thesis by (simp add: folded_ascii)
next
  case False
  then have h: "128 \<le> byte b" by simp
  have "hd (folded b) \<in> set (folded b)" by (simp add: folded_nonempty)
  then have "\<not> P (hd (folded b))" using assms folded_high_bytes [OF h] by blast
  moreover have "\<not> P (FoldCase_byte b)" using assms h by (simp add: FoldCase_byte_high)
  ultimately show ?thesis by simp
qed


lemma byte_hyphen: "byte b = 0x2D \<longleftrightarrow> b = CHR ''-''"
proof -
  have "byte (CHR ''-'') = 0x2D" by simp
  then show ?thesis by (metis byte_eq_iff)
qed

lemma byte_period: "byte b = 0x2E \<longleftrightarrow> b = CHR ''.''"
proof -
  have "byte (CHR ''.'') = 0x2E" by simp
  then show ?thesis by (metis byte_eq_iff)
qed

lemma head_tail_rule_nth:
  "head_tail_rule P Q g \<longleftrightarrow>
     g \<noteq> [] \<and> P (g ! 0) \<and> (\<forall>i. 1 \<le> i \<and> i < length g \<longrightarrow> Q (g ! i))"
proof (cases g)
  case Nil
  then show ?thesis by (simp add: head_tail_rule_def)
next
  case (Cons a r)
  have "(\<forall>i. 1 \<le> i \<and> i < length g \<longrightarrow> Q (g ! i)) = (\<forall>b \<in> set (drop 1 g). Q b)"
    by (rule all_drop_nth [symmetric])
  then show ?thesis
    using Cons by (simp add: head_tail_rule_def list_all_iff)
qed

lemma head_tail_rule_folded:
  assumes high1: "\<And>c. 128 \<le> byte c \<Longrightarrow> \<not> P c"
    and high2: "\<And>c. 128 \<le> byte c \<Longrightarrow> \<not> Q c"
  shows "head_tail_rule P Q (concat (map folded s)) = head_tail_rule P Q (FoldCase_spec s)"
proof (cases s)
  case Nil
  then show ?thesis by (simp add: FoldCase_spec_def)
next
  case (Cons b r)
  show ?thesis
  proof (cases "byte b < 128")
    case True
    then show ?thesis
      using Cons list_all_concat_folded [of Q r, OF high2]
      by (simp add: head_tail_rule_def folded_ascii FoldCase_spec_def)
  next
    case False
    then have h: "128 \<le> byte b" by simp
    have "\<not> P (hd (folded b))"
      using hd_folded_P [of P b, OF high1] high1 [OF h] FoldCase_byte_high [OF h] by simp
    moreover have "\<not> P (FoldCase_byte b)"
      using high1 [OF h] FoldCase_byte_high [OF h] by simp
    ultimately show ?thesis
      using Cons folded_nonempty [of b] by (simp add: head_tail_rule_def FoldCase_spec_def)
  qed
qed


section \<open>The loops of Fmt, TrimFmt and StripRaw, in closed form\<close>

lemma fmt_aliases_loop_eq:
  assumes "i < length codes"
  shows "fmt_aliases_loop new i a t =
     Some (replace_aliases new (codes ! i) (drop a (aliases (codes ! i))) t)"
  using assms
proof (induction new i a t rule: fmt_aliases_loop.induct)
  case (1 new i a t)
  let ?code = "codes ! i"
  from "1.prems" have atc: "at codes i = Some ?code" by (simp add: at_def)
  show ?case
  proof (cases "a < length (aliases ?code)")
    case False
    then show ?thesis
      by (subst fmt_aliases_loop.simps) (simp add: atc replace_aliases_def)
  next
    case True
    then have d: "drop a (aliases ?code) = aliases ?code ! a # drop (Suc a) (aliases ?code)"
      by (simp add: Cons_nth_drop_Suc)
    have ata: "at (aliases ?code) a = Some (aliases ?code ! a)"
      using True by (simp add: at_def)
    have "fmt_aliases_loop new i a t =
        fmt_aliases_loop new i (a + 1)
          (Replace t (''{'' @ aliases ?code ! a @ ''}'') (new ?code))"
      using True by (subst fmt_aliases_loop.simps) (simp add: atc ata)
    also have "\<dots> = Some (replace_aliases new ?code (drop (a + 1) (aliases ?code))
          (Replace t (''{'' @ aliases ?code ! a @ ''}'') (new ?code)))"
      using "1.prems" by (rule "1.IH" [OF atc True ata])
    finally show ?thesis by (simp add: d replace_aliases_def)
  qed
qed

lemma more_loop_brace: "more_loop t 0 = Some (CHR ''{'' \<in> set t)"
  by (auto simp: more_loop_eq byte_open_brace)

lemma fmt_loop_eq: "fmt_loop new i t = Some (fmt_run new (drop i codes) t)"
proof (induction new i t rule: fmt_loop.induct)
  case (1 new i t)
  show ?case
  proof (cases "i < length codes")
    case False
    then show ?thesis by (subst fmt_loop.simps) simp
  next
    case True
    then have d: "drop i codes = codes ! i # drop (Suc i) codes"
      by (simp add: Cons_nth_drop_Suc)
    let ?t' = "replace_aliases new (codes ! i) (aliases (codes ! i)) t"
    have inner: "fmt_aliases_loop new i 0 t = Some ?t'"
      using True by (simp add: fmt_aliases_loop_eq)
    show ?thesis
    proof (cases "CHR ''{'' \<in> set ?t'")
      case False
      then show ?thesis
        using True by (subst fmt_loop.simps) (simp add: inner more_loop_brace d)
    next
      case brace: True
      have "fmt_loop new i t = fmt_loop new (i + 1) ?t'"
        using True brace by (subst fmt_loop.simps) (simp add: inner more_loop_brace)
      also have "\<dots> = Some (fmt_run new (drop (i + 1) codes) ?t')"
        using True inner brace by (intro "1.IH") (simp_all add: more_loop_brace)
      finally show ?thesis using brace by (simp add: d)
    qed
  qed
qed

lemma Fmt_eq: "Fmt t = Some (fmt_run val codes t)"
  by (simp add: Fmt_def fmt_loop_eq)

lemma TrimFmt_eq: "TrimFmt t = Some (fmt_run (\<lambda>code. []) codes t)"
  by (simp add: TrimFmt_def fmt_loop_eq)

lemma StripRaw_loop_eq: "StripRaw_loop i t = Some (strip_run (drop i codes) t)"
proof (induction i t rule: StripRaw_loop.induct)
  case (1 i t)
  show ?case
  proof (cases "i < length codes")
    case False
    then show ?thesis by (subst StripRaw_loop.simps) (simp add: strip_run_def)
  next
    case True
    then have d: "drop i codes = codes ! i # drop (Suc i) codes"
      by (simp add: Cons_nth_drop_Suc)
    have atc: "at codes i = Some (codes ! i)" using True by (simp add: at_def)
    show ?thesis
      using True "1.IH" [OF True atc]
      by (subst StripRaw_loop.simps) (simp add: atc d strip_run_def)
  qed
qed

lemma StripRaw_eq: "StripRaw t = Some (strip_run codes t)"
  by (simp add: StripRaw_def StripRaw_loop_eq)


section \<open>IsValidChannel\<close>

text \<open>
  Claim C5. \<^verbatim>\<open>IsValidChannel(c)\<close> returns true exactly when the length of \<open>c\<close> is at least 2
  and at most 50, the first byte is one of \<^verbatim>\<open>! # & * +\<close>, a first byte \<^verbatim>\<open>!\<close> comes with a
  length of at least 7 and an ASCII digit or uppercase letter at each of the indices 1 to 5,
  and no byte from index 1 on is NUL, BELL, CR, LF, space, comma or colon.
\<close>

theorem IsValidChannel_iff:
  "IsValidChannel c = Some
     (2 \<le> length c \<and> length c \<le> 50 \<and>
      c ! 0 \<in> {CHR ''!'', CHR ''#'', CHR ''&'', CHR ''*'', CHR ''+''} \<and>
      (c ! 0 = CHR ''!'' \<longrightarrow>
         7 \<le> length c \<and> (\<forall>i. 1 \<le> i \<and> i \<le> 5 \<longrightarrow> ascii_digit (c ! i) \<or> ascii_upper (c ! i))) \<and>
      (\<forall>i. 1 \<le> i \<and> i < length c \<longrightarrow>
         c ! i \<notin> {CHR 0x00, CHR 0x07, CHR 0x0D, CHR 0x0A, CHR '' '', CHR '','', CHR '':''}))"
proof -
  define B where "B \<longleftrightarrow> (\<forall>i. 1 \<le> i \<and> i < length c \<longrightarrow>
         c ! i \<notin> {CHR 0x00, CHR 0x07, CHR 0x0D, CHR 0x0A, CHR '' '', CHR '','', CHR '':''})"
  define I where "I \<longleftrightarrow> (\<forall>i. 1 \<le> i \<and> i \<le> 5 \<longrightarrow> ascii_digit (c ! i) \<or> ascii_upper (c ! i))"
  have badloop: "channel_bad_loop c (Suc 0) = Some B"
    unfolding B_def
    by (simp only: channel_bad_loop_eq all_drop_nth IndexByte_absent One_nat_def) (simp add: bad_def)
  have idloop: "channel_id_loop c (Suc 0) = Some I" if six: "6 \<le> length c"
  proof -
    have "(\<forall>j. 1 \<le> j \<and> j < length (take 6 c) \<longrightarrow> ascii_digit (take 6 c ! j) \<or> ascii_upper (take 6 c ! j)) = I"
      unfolding I_def using six by (auto simp: less_Suc_eq_le)
    moreover have "channel_id_loop c (Suc 0) =
      Some (\<forall>j. 1 \<le> j \<and> j < length (take 6 c) \<longrightarrow> ascii_digit (take 6 c ! j) \<or> ascii_upper (take 6 c ! j))"
      using six
      by (simp only: channel_id_loop_eq all_drop_nth One_nat_def)
         (auto simp: ascii_digit_def ascii_upper_def not_less)
    ultimately show ?thesis by simp
  qed
  have "IsValidChannel c = Some
     (2 \<le> length c \<and> length c \<le> 50 \<and>
      c ! 0 \<in> {CHR ''!'', CHR ''#'', CHR ''&'', CHR ''*'', CHR ''+''} \<and>
      (c ! 0 = CHR ''!'' \<longrightarrow> 7 \<le> length c \<and> I) \<and> B)"
  proof (cases "length c \<le> 1 \<or> length c > 50")
    case True
    then show ?thesis by (auto simp: IsValidChannel_def)
  next
    case len: False
    then have at0: "at c 0 = Some (c ! 0)" by (auto simp: at_def)
    show ?thesis
    proof (cases "c ! 0 = CHR ''!''")
      case False
      then show ?thesis
        using len by (auto simp: IsValidChannel_def at0 IndexByte_absent byte_bang badloop)
    next
      case bang: True
      show ?thesis
      proof (cases "length c < 7")
        case True
        then show ?thesis
          using len bang by (auto simp: IsValidChannel_def at0 IndexByte_absent byte_bang)
      next
        case False
        then have six: "6 \<le> length c" by simp
        show ?thesis
          using len bang False
          by (auto simp: IsValidChannel_def at0 IndexByte_absent byte_bang badloop idloop [OF six])
      qed
    qed
  qed
  then show ?thesis unfolding B_def I_def .
qed


theorem IsValidChannel_iff_witness: "IsValidChannel ''!AB12C+x'' = Some True"
proof -
  have "\<forall>b \<in> set (drop 1 ''!AB12C+x'').
      b \<notin> {CHR 0x00, CHR 0x07, CHR 0x0D, CHR 0x0A, CHR '' '', CHR '','', CHR '':''}"
    by simp
  then have a: "\<forall>i. 1 \<le> i \<and> i < length ''!AB12C+x'' \<longrightarrow>
         ''!AB12C+x'' ! i \<notin> {CHR 0x00, CHR 0x07, CHR 0x0D, CHR 0x0A, CHR '' '', CHR '','', CHR '':''}"
    by (simp only: all_drop_nth)
  have c: "\<forall>i. 1 \<le> i \<and> i \<le> 5 \<longrightarrow> ascii_digit (''!AB12C+x'' ! i) \<or> ascii_upper (''!AB12C+x'' ! i)"
  proof (intro allI impI)
    fix i :: nat
    assume "1 \<le> i \<and> i \<le> 5"
    then have "i = 1 \<or> i = 2 \<or> i = 3 \<or> i = 4 \<or> i = 5" by arith
    then show "ascii_digit (''!AB12C+x'' ! i) \<or> ascii_upper (''!AB12C+x'' ! i)"
      by (auto simp: ascii_digit_def ascii_upper_def)
  qed
  show ?thesis
    using IsValidChannel_iff [of "''!AB12C+x''"] a c by simp
qed


section \<open>ToRFC1459\<close>

text \<open>On bytes below 128 the code is the byte-wise folding.\<close>

lemma ToRFC1459_ascii:
  assumes "\<forall>b \<in> set s. byte b < 128"
  shows "ToRFC1459 s = Some (FoldCase_spec s)"
proof -
  from assms have "concat (map folded s) = map FoldCase_byte s"
    by (induction s) (simp_all add: folded_ascii)
  then show ?thesis by (simp add: ToRFC1459_eq FoldCase_spec_def)
qed

text \<open>
  Claim C2. \<^verbatim>\<open>ToRFC1459\<close> adds 32 to every byte in \<open>65..94\<close>, passes every other byte
  through unchanged, and returns as many bytes as it was given. The code returns two bytes
  for a byte from 128 on: \<^verbatim>\<open>string(input[i])\<close> is the UTF-8 encoding of the byte's value.
  At the one-byte input \<open>0xE9\<close> it returns \<open>0xC3 0xA9\<close>.
\<close>

theorem ToRFC1459_high_byte:
  "ToRFC1459 [CHR 0xE9] = Some [CHR 0xC3, CHR 0xA9] \<and> FoldCase_spec [CHR 0xE9] = [CHR 0xE9]"
  by code_simp


section \<open>IsValidNick\<close>

lemma nick_rule_eq:
  "nick_rule f = head_tail_rule nick_range (\<lambda>b. nick_range b \<or> ascii_digit b \<or> b = CHR ''-'') f"
  by (simp add: nick_rule_def head_tail_rule_nth)

lemma nick_loop_rule:
  "nick_loop f (Suc 0) =
     Some (list_all (\<lambda>b. nick_range b \<or> ascii_digit b \<or> b = CHR ''-'') (tl f))"
proof -
  have "\<not> ((byte b < 0x41 \<or> byte b > 0x7D) \<and> (byte b < 0x30 \<or> byte b > 0x39) \<and> byte b \<noteq> 0x2D)
     \<longleftrightarrow> nick_range b \<or> ascii_digit b \<or> b = CHR ''-''" for b
    by (auto simp: nick_range_def ascii_digit_def byte_hyphen [symmetric])
  then show ?thesis
    by (simp only: nick_loop_eq list_all_iff drop_Suc drop_0)
qed

lemma nick_rule_folded:
  "nick_rule (concat (map folded n)) = nick_rule (FoldCase_spec n)"
  unfolding nick_rule_eq
  by (rule head_tail_rule_folded) (auto simp: nick_range_def ascii_digit_def)

lemma IsValidNick_folded:
  "IsValidNick n = Some (n \<noteq> [] \<and> nick_rule (concat (map folded n)))"
proof (cases "n = []")
  case True
  then show ?thesis by (simp add: IsValidNick_def)
next
  case False
  define f where "f = concat (map folded n)"
  from False obtain b s where "n = b # s" by (cases n) auto
  then have ne: "f \<noteq> []" using folded_nonempty [of b] by (simp add: f_def)
  then have at0: "at f 0 = Some (hd f)" by (cases f) (simp_all add: at_def)
  have first: "nick_range (hd f) \<longleftrightarrow> \<not> (byte (hd f) < 0x41 \<or> byte (hd f) > 0x7D)"
    by (auto simp: nick_range_def)
  show ?thesis
    using False ne unfolding f_def [symmetric]
    by (simp add: IsValidNick_def ToRFC1459_eq f_def [symmetric] at0 nick_loop_rule
        nick_rule_eq head_tail_rule_def first)
qed

text \<open>
  Claim C6. \<^verbatim>\<open>IsValidNick(n)\<close> returns true exactly when \<open>n\<close> is not empty and its
  case-folded form \<open>f\<close> has a first byte in \<open>0x41..0x7D\<close> and only later bytes that are in
  \<open>0x41..0x7D\<close>, digits or hyphens. This holds for \<open>f\<close> the string that \<^verbatim>\<open>ToRFC1459\<close>
  returns, and also for \<open>f\<close> the byte-wise folding of the specification.
\<close>

theorem IsValidNick_iff:
  "\<exists>f. ToRFC1459 n = Some f \<and>
       IsValidNick n = Some (n \<noteq> [] \<and> nick_rule f) \<and>
       IsValidNick n = Some (n \<noteq> [] \<and> nick_rule (FoldCase_spec n))"
proof -
  have "ToRFC1459 n = Some (concat (map folded n))"
    by (rule ToRFC1459_eq)
  moreover have "IsValidNick n = Some (n \<noteq> [] \<and> nick_rule (concat (map folded n)))"
    by (rule IsValidNick_folded)
  moreover have "nick_rule (concat (map folded n)) = nick_rule (FoldCase_spec n)"
    by (rule nick_rule_folded)
  ultimately show ?thesis by simp
qed

theorem IsValidNick_iff_witness: "IsValidNick ''Nick_1'' = Some True"
proof -
  have "nick_rule (FoldCase_spec ''Nick_1'')"
    by (simp add: nick_rule_eq head_tail_rule_def FoldCase_spec_def FoldCase_byte_def
        nick_range_def ascii_digit_def)
  then show ?thesis using IsValidNick_iff [of "''Nick_1''"] by auto
qed

text \<open>The other special characters are accepted as a first byte.\<close>

lemma IsValidNick_specials:
  assumes "c \<in> {CHR ''_'', CHR 0x5C, CHR ''['', CHR '']'', CHR ''{'', CHR ''}'', CHR ''|''}"
    and "\<forall>b \<in> set r. ascii_upper b \<or> ascii_lower b"
  shows "IsValidNick (c # r) = Some True"
proof -
  have "\<forall>b \<in> set (c # r). byte b < 128"
    using assms by (auto simp: ascii_upper_def ascii_lower_def)
  then have fold: "ToRFC1459 (c # r) = Some (FoldCase_byte c # map FoldCase_byte r)"
    by (simp only: ToRFC1459_ascii FoldCase_spec_def list.map)
  have first: "\<not> (byte (FoldCase_byte c) < 0x41 \<or> byte (FoldCase_byte c) > 0x7D)"
    using assms(1) by (auto simp: FoldCase_byte_def)
  have rest: "\<not> (byte (FoldCase_byte b) < 0x41 \<or> byte (FoldCase_byte b) > 0x7D)"
    if "b \<in> set r" for b
    using that assms(2) by (auto simp: FoldCase_byte_def ascii_upper_def ascii_lower_def)
  show ?thesis
    using first rest by (simp add: IsValidNick_def fold at_def nick_loop_eq)
qed

text \<open>
  Claim C4. A nickname whose first byte is one of \<^verbatim>\<open>_ \ [ ] { } ^ |\<close> and whose other bytes
  are ASCII letters is accepted. The code refuses \<^verbatim>\<open>^abc\<close>: folding turns \<^verbatim>\<open>^\<close>
  (\<open>0x5E\<close>) into \<^verbatim>\<open>~\<close> (\<open>0x7E\<close>), which is above \<open>0x7D\<close>.
\<close>

theorem IsValidNick_caret: "IsValidNick ''^abc'' = Some False"
  by code_simp


section \<open>IsValidUser\<close>

lemma user_loop_rule:
  "user_loop g (Suc 0) =
     Some (list_all (\<lambda>b. nick_range b \<or> ascii_digit b \<or> b = CHR ''-'' \<or> b = CHR ''.'') (tl g))"
proof -
  have "\<not> ((byte b < 0x41 \<or> byte b > 0x7D) \<and> (byte b < 0x30 \<or> byte b > 0x39)
          \<and> byte b \<noteq> 0x2D \<and> byte b \<noteq> 0x2E)
     \<longleftrightarrow> nick_range b \<or> ascii_digit b \<or> b = CHR ''-'' \<or> b = CHR ''.''" for b
    by (auto simp: nick_range_def ascii_digit_def byte_hyphen [symmetric] byte_period [symmetric])
  then show ?thesis
    by (simp only: user_loop_eq list_all_iff drop_Suc drop_0)
qed

text \<open>On a byte that is not in \<open>65..94\<close>, as every byte of a folded string, the check of
  the first index is the check for an alphanumeric byte.\<close>

lemma IsValidUser_checks_rule:
  assumes "g \<noteq> []" and "\<not> (65 \<le> byte (hd g) \<and> byte (hd g) \<le> 94)"
  shows "IsValidUser_checks g =
     Some (head_tail_rule alphanumeric
       (\<lambda>b. nick_range b \<or> ascii_digit b \<or> b = CHR ''-'' \<or> b = CHR ''.'') g)"
proof -
  from assms(1) have at0: "at g 0 = Some (hd g)" by (cases g) (simp_all add: at_def)
  have first: "alphanumeric (hd g) \<longleftrightarrow>
      \<not> ((byte (hd g) < 0x41 \<or> byte (hd g) > 0x4A) \<and> (byte (hd g) < 0x61 \<or> byte (hd g) > 0x7A)
         \<and> (byte (hd g) < 0x30 \<or> byte (hd g) > 0x39))"
    using assms(2) by (auto simp: alphanumeric_def ascii_digit_def ascii_upper_def ascii_lower_def)
  show ?thesis
    using assms(1) by (simp add: IsValidUser_checks_def at0 user_loop_rule head_tail_rule_def first)
qed

lemma user_rule_eq:
  "user_rule f =
     head_tail_rule alphanumeric (\<lambda>b. nick_range b \<or> ascii_digit b \<or> b = CHR ''-'' \<or> b = CHR ''.'')
       (if f \<noteq> [] \<and> hd f = CHR ''~'' then tl f else f)"
proof (cases f)
  case Nil
  then show ?thesis by (simp add: user_rule_def head_tail_rule_nth)
next
  case (Cons a r)
  then show ?thesis by (simp add: user_rule_def head_tail_rule_nth Let_def)
qed

lemma concat_folded_not_upper:
  "c \<in> set (concat (map folded s)) \<Longrightarrow> \<not> (65 \<le> byte c \<and> byte c \<le> 94)"
  using folded_not_upper by auto

lemma folded_tilde: "hd (folded b) = CHR ''~'' \<Longrightarrow> folded b = ''~''"
proof (cases "byte b < 128")
  case True
  assume "hd (folded b) = CHR ''~''"
  with True show ?thesis by (simp add: folded_ascii)
next
  case False
  assume t: "hd (folded b) = CHR ''~''"
  from False have h: "128 \<le> byte b" by simp
  have "hd (folded b) \<in> set (folded b)" by (simp add: folded_nonempty)
  then have "128 \<le> byte (hd (folded b))" using h by (simp add: folded_high_bytes)
  with t show ?thesis by simp
qed

lemma user_rule_folded:
  "user_rule (concat (map folded u)) = user_rule (FoldCase_spec u)"
proof (cases u)
  case Nil
  then show ?thesis by (simp add: FoldCase_spec_def)
next
  case (Cons b s)
  let ?Q = "\<lambda>b. nick_range b \<or> ascii_digit b \<or> b = CHR ''-'' \<or> b = CHR ''.''"
  have high1: "\<not> alphanumeric c" if "128 \<le> byte c" for c
    using that by (auto simp: alphanumeric_def ascii_digit_def ascii_upper_def ascii_lower_def)
  have high2: "\<not> ?Q c" if "128 \<le> byte c" for c
    using that by (auto simp: nick_range_def ascii_digit_def)
  have whole: "head_tail_rule alphanumeric ?Q (concat (map folded u))
      = head_tail_rule alphanumeric ?Q (FoldCase_spec u)"
    by (rule head_tail_rule_folded) (use high1 high2 in blast)+
  have rest: "head_tail_rule alphanumeric ?Q (concat (map folded s))
      = head_tail_rule alphanumeric ?Q (FoldCase_spec s)"
    by (rule head_tail_rule_folded) (use high1 high2 in blast)+
  show ?thesis
  proof (cases "byte b < 128")
    case True
    then show ?thesis
      using Cons whole rest
      by (simp add: user_rule_eq folded_ascii FoldCase_spec_def)
  next
    case False
    then have h: "128 \<le> byte b" by simp
    have "hd (folded b) \<in> set (folded b)" by (simp add: folded_nonempty)
    then have "128 \<le> byte (hd (folded b))" using h by (simp add: folded_high_bytes)
    then have 1: "hd (folded b) \<noteq> CHR ''~''" by auto
    have 2: "FoldCase_byte b \<noteq> CHR ''~''" using h by (auto simp: FoldCase_byte_high)
    show ?thesis
      using Cons whole 1 2 folded_nonempty [of b]
      by (simp add: user_rule_eq FoldCase_spec_def)
  qed
qed

text \<open>
  Claim C7. \<^verbatim>\<open>IsValidUser(u)\<close> returns true exactly when \<open>u\<close> is not empty and, in its
  case-folded form with a leading \<^verbatim>\<open>~\<close> cut, something is left, the first byte is
  alphanumeric and every later byte is in \<open>0x41..0x7D\<close>, a digit, a hyphen or a period. This
  holds for the folded form that \<^verbatim>\<open>ToRFC1459\<close> returns, and also for the byte-wise
  folding of the specification.
\<close>

theorem IsValidUser_iff:
  "\<exists>f. ToRFC1459 u = Some f \<and>
       IsValidUser u = Some (u \<noteq> [] \<and> user_rule f) \<and>
       IsValidUser u = Some (u \<noteq> [] \<and> user_rule (FoldCase_spec u))"
proof -
  define f where "f = concat (map folded u)"
  let ?Q = "\<lambda>b. nick_range b \<or> ascii_digit b \<or> b = CHR ''-'' \<or> b = CHR ''.''"
  have fold: "ToRFC1459 u = Some f"
    by (simp add: f_def ToRFC1459_eq)
  have lower: "\<not> (65 \<le> byte c \<and> byte c \<le> 94)" if "c \<in> set f" for c
    using that unfolding f_def by (rule concat_folded_not_upper)
  have main: "IsValidUser u = Some (u \<noteq> [] \<and> user_rule f)"
  proof (cases "u = []")
    case True
    then show ?thesis by (simp add: IsValidUser_def)
  next
    case False
    then obtain b s where "u = b # s" by (cases u) auto
    then have ne: "f \<noteq> []" using folded_nonempty [of b] by (simp add: f_def)
    then have at0: "at f 0 = Some (hd f)" by (cases f) (simp_all add: at_def)
    show ?thesis
    proof (cases "hd f = CHR ''~''")
      case no_tilde: False
      have "hd f \<in> set f" using ne by simp
      then have "IsValidUser_checks f = Some (head_tail_rule alphanumeric ?Q f)"
        using ne lower by (intro IsValidUser_checks_rule) blast+
      then show ?thesis
        using False ne no_tilde
        by (simp add: IsValidUser_def fold at0 byte_tilde user_rule_eq)
    next
      case tilde: True
      show ?thesis
      proof (cases "length f < 2")
        case True
        then have "tl f = []" using ne by (cases f) auto
        then show ?thesis
          using False ne tilde True
          by (simp add: IsValidUser_def fold at0 byte_tilde user_rule_eq head_tail_rule_def)
      next
        case long: False
        then have tlne: "tl f \<noteq> []" using ne by (cases f) auto
        have sl: "slice_from f 1 = Some (tl f)"
          using ne by (cases f) (simp_all add: slice_from_def drop_Suc)
        have "hd (tl f) \<in> set f" using tlne ne by (metis hd_in_set list.set_sel(2))
        then have "IsValidUser_checks (tl f) = Some (head_tail_rule alphanumeric ?Q (tl f))"
          using tlne lower by (intro IsValidUser_checks_rule) blast+
        then show ?thesis
          using False ne tilde long
          by (simp add: IsValidUser_def fold at0 byte_tilde user_rule_eq sl)
      qed
    qed
  qed
  moreover have "user_rule f = user_rule (FoldCase_spec u)"
    unfolding f_def by (rule user_rule_folded)
  ultimately show ?thesis using fold by simp
qed

theorem IsValidUser_iff_witness: "IsValidUser ''~user.name'' = Some True"
proof -
  have "user_rule (FoldCase_spec ''~user.name'')"
    by (simp add: user_rule_eq head_tail_rule_def FoldCase_spec_def FoldCase_byte_def
        nick_range_def ascii_digit_def ascii_lower_def ascii_upper_def alphanumeric_def)
  then show ?thesis using IsValidUser_iff [of "''~user.name''"] by auto
qed


lemma folded_caret: "folded CHR ''^'' = ''~''"
  by code_simp

lemma folded_tilde_char: "folded CHR ''~'' = ''~''"
  by code_simp

text \<open>
  Claim C10. Folding comes before the check for \<^verbatim>\<open>~\<close>, so a leading \<^verbatim>\<open>^\<close>, which
  folds to \<^verbatim>\<open>~\<close>, is treated as a leading \<^verbatim>\<open>~\<close>: \<^verbatim>\<open>IsValidUser("^" + s)\<close> equals
  \<^verbatim>\<open>IsValidUser("~" + s)\<close> for every \<open>s\<close>, and \<^verbatim>\<open>^abc\<close> is accepted.
\<close>

theorem IsValidUser_caret_tilde:
  "IsValidUser (CHR ''^'' # s) = IsValidUser (CHR ''~'' # s) \<and> IsValidUser ''^abc'' = Some True"
proof
  show "IsValidUser (CHR ''^'' # s) = IsValidUser (CHR ''~'' # s)"
    by (simp add: IsValidUser_def ToRFC1459_eq folded_caret folded_tilde_char)
  show "IsValidUser ''^abc'' = Some True"
    by code_simp
qed


section \<open>No operation panics\<close>

lemma ex_bool [simp]: "\<exists>b. \<not> b" "\<exists>b::bool. b"
  by blast+

lemma Split_acc_nonempty: "Split_acc piece s sep \<noteq> []"
  by (induction piece s sep rule: Split_acc.induct) auto

lemma Split_nonempty: "Split s sep \<noteq> []"
  by (simp add: Split_def Split_acc_nonempty)

lemma Index_from_bounds:
  "Index_from k s sub = -1 \<or>
     (int k \<le> Index_from k s sub \<and> Index_from k s sub + int (length sub) \<le> int k + int (length s))"
proof (induction s arbitrary: k)
  case Nil
  then show ?case by simp
next
  case (Cons c cs)
  show ?case
  proof (cases "HasPrefix (c # cs) sub")
    case True
    then have "length sub \<le> length (c # cs)" by (simp add: HasPrefix_def)
    with True show ?thesis by simp
  next
    case False
    then show ?thesis using Cons [of "Suc k"] by auto
  qed
qed

lemma Contains_slice:
  assumes "Contains input part"
  shows "slice_from input (Index input part + int (length part))
     = Some (drop (nat (Index input part) + length part) input)"
proof -
  from assms have "0 \<le> Index_from 0 input part"
    by (simp add: Contains_def Index_def)
  with Index_from_bounds [of 0 input part]
  have "0 \<le> Index input part" "Index input part + int (length part) \<le> int (length input)"
    by (auto simp: Index_def)
  then show ?thesis
    by (simp add: slice_from_def nat_add_distrib)
qed

lemma Glob_middle_returns:
  assumes "0 \<le> i" and "last' < int (length parts)"
  shows "\<exists>r. Glob_middle parts last' i input = Some r"
  using assms
proof (induction parts last' i input rule: Glob_middle.induct)
  case (1 parts last' i input)
  show ?case
  proof (cases "i < last'")
    case False
    then show ?thesis by (subst Glob_middle.simps) simp
  next
    case True
    with "1.prems" have atp: "at_int parts i = Some (parts ! nat i)"
      by (simp add: at_int_def)
    show ?thesis
    proof (cases "Contains input (parts ! nat i)")
      case False
      then show ?thesis using True by (subst Glob_middle.simps) (simp add: atp)
    next
      case c: True
      let ?input' = "drop (nat (Index input (parts ! nat i)) + length (parts ! nat i)) input"
      have sl: "slice_from input (Index input (parts ! nat i) + int (length (parts ! nat i)))
          = Some ?input'"
        using c by (rule Contains_slice)
      have "\<exists>r. Glob_middle parts last' (i + 1) ?input' = Some r"
        using True c "1.prems" by (intro "1.IH" [OF True atp _ sl]) simp_all
      then show ?thesis
        using True c by (subst Glob_middle.simps) (simp add: atp sl)
    qed
  qed
qed

lemma Glob_returns: "\<exists>b. Glob input match = Some b"
proof -
  define parts where "parts = Split match globChar"
  have ne: "parts \<noteq> []" by (simp add: parts_def Split_nonempty)
  then have at0: "at_int parts 0 = Some (parts ! 0)"
    by (simp add: at_int_def)
  have atl: "at_int parts (int (length parts) - 1) = Some (parts ! nat (int (length parts) - 1))"
    using ne by (simp add: at_int_def)
  obtain r where mid: "Glob_middle parts (int (length parts) - 1) 1 input = Some r"
    using Glob_middle_returns [of 1 "int (length parts) - 1" parts input] by auto
  show ?thesis
    unfolding Glob_def Let_def parts_def [symmetric]
    by (cases r) (auto simp: at0 atl mid)
qed


lemma IsValidChannel_returns: "IsValidChannel c \<noteq> None"
proof (cases "length c \<le> 1 \<or> length c > 50")
  case True
  then show ?thesis by (auto simp: IsValidChannel_def)
next
  case False
  then have at0: "at c 0 = Some (c ! 0)" by (auto simp: at_def)
  have "channel_id_loop c (Suc 0) \<noteq> None" if "\<not> length c < 7"
    using that by (simp add: channel_id_loop_eq)
  then show ?thesis
    using False by (auto simp: IsValidChannel_def at0 channel_bad_loop_eq)
qed

lemma concat_folded_nonempty: "s \<noteq> [] \<Longrightarrow> concat (map folded s) \<noteq> []"
  using folded_nonempty by (cases s) auto

lemma IsValidNick_returns: "IsValidNick n \<noteq> None"
proof (cases "n = []")
  case True
  then show ?thesis by (simp add: IsValidNick_def)
next
  case False
  then have "concat (map folded n) \<noteq> []" by (rule concat_folded_nonempty)
  then have "at (concat (map folded n)) 0 = Some (hd (concat (map folded n)))"
    by (cases "concat (map folded n)") (simp_all add: at_def)
  then show ?thesis
    using False by (simp add: IsValidNick_def ToRFC1459_eq nick_loop_eq)
qed

lemma IsValidUser_checks_returns: "g \<noteq> [] \<Longrightarrow> IsValidUser_checks g \<noteq> None"
  by (cases g) (simp_all add: IsValidUser_checks_def at_def user_loop_eq)

lemma IsValidUser_returns: "IsValidUser u \<noteq> None"
proof (cases "u = []")
  case True
  then show ?thesis by (simp add: IsValidUser_def)
next
  case False
  define f where "f = concat (map folded u)"
  have ne: "f \<noteq> []" unfolding f_def using False by (rule concat_folded_nonempty)
  then have at0: "at f 0 = Some (hd f)"
    by (cases f) (simp_all add: at_def)
  have sl: "slice_from f 1 = Some (tl f)" and tl: "tl f \<noteq> []" if "\<not> length f < 2"
    using that ne by (cases f; simp add: slice_from_def drop_Suc; fail)+
  have 1: "IsValidUser_checks f \<noteq> None"
    using ne by (rule IsValidUser_checks_returns)
  have 2: "IsValidUser_checks (tl f) \<noteq> None" if "\<not> length f < 2"
    using tl [OF that] by (rule IsValidUser_checks_returns)
  show ?thesis
    using False 1 2 sl
    by (simp add: IsValidUser_def ToRFC1459_eq f_def [symmetric] at0)
qed

text \<open>
  Claim C9. Every operation (\<^verbatim>\<open>Fmt\<close>, \<^verbatim>\<open>TrimFmt\<close>, \<^verbatim>\<open>StripRaw\<close>, \<^verbatim>\<open>IsValidChannel\<close>,
  \<^verbatim>\<open>IsValidNick\<close>, \<^verbatim>\<open>IsValidUser\<close>, \<^verbatim>\<open>ToRFC1459\<close>, \<^verbatim>\<open>Glob\<close>) is total over all
  input strings, the empty one included: no index or slice bound is ever out of range, and
  each call returns a string or a boolean. In the model a panic is the value \<open>None\<close>.
\<close>

theorem operations_total:
  "(\<exists>r. Fmt s = Some r) \<and> (\<exists>r. TrimFmt s = Some r) \<and> (\<exists>r. StripRaw s = Some r) \<and>
   (\<exists>b. IsValidChannel s = Some b) \<and> (\<exists>b. IsValidNick s = Some b) \<and>
   (\<exists>b. IsValidUser s = Some b) \<and> (\<exists>r. ToRFC1459 s = Some r) \<and>
   (\<exists>b. Glob s pattern = Some b)"
  using IsValidChannel_returns [of s] IsValidNick_returns [of s] IsValidUser_returns [of s]
    Glob_returns [of s pattern]
  by (simp add: Fmt_eq TrimFmt_eq StripRaw_eq ToRFC1459_eq)


theorem operations_total_empty:
  "(\<exists>r. Fmt [] = Some r) \<and> (\<exists>r. TrimFmt [] = Some r) \<and> (\<exists>r. StripRaw [] = Some r) \<and>
   (\<exists>b. IsValidChannel [] = Some b) \<and> (\<exists>b. IsValidNick [] = Some b) \<and>
   (\<exists>b. IsValidUser [] = Some b) \<and> (\<exists>r. ToRFC1459 [] = Some r) \<and>
   (\<exists>b. Glob [] [] = Some b)"
  by (rule operations_total [of "[]" "[]"])

section \<open>StripRaw\<close>

lemma HasPrefix_single: "HasPrefix (c # cs) [b] \<longleftrightarrow> c = b"
  by (simp add: HasPrefix_def)

lemma Replace_single: "Replace s [b] [] = filter (\<lambda>c. c \<noteq> b) s"
  by (induction s) (simp_all add: HasPrefix_single)

lemma set_Replace_empty: "set (Replace s old []) \<subseteq> set s"
proof (induction s old "[] :: string" rule: Replace.induct)
  case (1 old)
  show ?case by simp
next
  case (2 c cs old)
  show ?case
  proof (cases "old \<noteq> [] \<and> HasPrefix (c # cs) old")
    case True
    with 2 have "set (Replace (drop (length old) (c # cs)) old []) \<subseteq> set (drop (length old) (c # cs))"
      by simp
    also have "\<dots> \<subseteq> set (c # cs)" by (rule set_drop_subset)
    finally show ?thesis using True by simp
  next
    case False
    with 2 show ?thesis by auto
  qed
qed

lemma strip_run_snoc: "strip_run (cs @ [code]) t = Replace (strip_run cs t) (val code) []"
  by (simp add: strip_run_def)

lemma strip_run_removes:
  "code \<in> set cs \<Longrightarrow> val code = [b] \<Longrightarrow> b \<notin> set (strip_run cs t)"
proof (induction cs rule: rev_induct)
  case Nil
  then show ?case by simp
next
  case (snoc x cs)
  show ?case
  proof (cases "code = x")
    case True
    with snoc.prems show ?thesis by (simp add: strip_run_snoc Replace_single)
  next
    case False
    with snoc have "b \<notin> set (strip_run cs t)" by simp
    then show ?thesis
      using set_Replace_empty [of "strip_run cs t" "val x"] by (auto simp: strip_run_snoc)
  qed
qed

lemma Index_from_found: "0 \<le> Index_from k s sub \<Longrightarrow> set sub \<subseteq> set s"
proof (induction s arbitrary: k)
  case Nil
  then show ?case by (simp split: if_splits)
next
  case (Cons c cs)
  show ?case
  proof (cases "HasPrefix (c # cs) sub")
    case True
    then have "sub = take (length sub) (c # cs)" by (simp add: HasPrefix_def)
    then show ?thesis by (metis set_take_subset)
  next
    case False
    with Cons.prems have "0 \<le> Index_from (Suc k) cs sub" by simp
    then have "set sub \<subseteq> set cs" by (rule Cons.IH)
    then show ?thesis by auto
  qed
qed

lemma Contains_set: "Contains s sub \<Longrightarrow> set sub \<subseteq> set s"
  unfolding Contains_def Index_def by (rule Index_from_found)

text \<open>Every value of the table holds a byte that is a value of the table by itself.\<close>

lemma val_single_byte:
  "code \<in> set codes \<Longrightarrow> \<exists>code' \<in> set codes. \<exists>b. val code' = [b] \<and> b \<in> set (val code)"
  by (auto simp: codes_def)

text \<open>
  Claim C8. The output of \<^verbatim>\<open>StripRaw\<close> contains no occurrence of any control-byte value
  of the format-code table, neither one that survived nor one formed by what the removals
  brought together.
\<close>

theorem StripRaw_clean:
  "\<exists>r. StripRaw s = Some r \<and> (\<forall>code \<in> set codes. \<not> Contains r (val code))"
proof -
  have "\<not> Contains (strip_run codes s) (val code)" if "code \<in> set codes" for code
  proof
    assume c: "Contains (strip_run codes s) (val code)"
    from val_single_byte [OF that] obtain code' b
      where "code' \<in> set codes" "val code' = [b]" "b \<in> set (val code)" by blast
    then have "b \<notin> set (strip_run codes s)" "b \<in> set (val code)"
      by (simp_all add: strip_run_removes)
    with Contains_set [OF c] show False by blast
  qed
  then show ?thesis by (simp add: StripRaw_eq)
qed

theorem StripRaw_clean_witness:
  "StripRaw [CHR 0x03, CHR 0x02, CHR ''0'', CHR ''0'', CHR ''a''] = Some ''00a'' \<and>
   \<not> Contains ''00a'' [CHR 0x03, CHR ''0'', CHR ''0'']"
proof -
  have "StripRaw [CHR 0x03, CHR 0x02, CHR ''0'', CHR ''0'', CHR ''a''] = Some ''00a''"
    by code_simp
  moreover have "\<lparr>aliases = [''white''], val = [CHR 0x03, CHR ''0'', CHR ''0'']\<rparr> \<in> set codes"
    by (simp add: codes_def)
  ultimately show ?thesis
    using StripRaw_clean [of "[CHR 0x03, CHR 0x02, CHR ''0'', CHR ''0'', CHR ''a'']"]
    by fastforce
qed

section \<open>Glob\<close>

text \<open>
  Claim C1. For a pattern with a \<^verbatim>\<open>*\<close> that does not begin with one, \<^verbatim>\<open>Glob\<close> returns true
  only if the input starts with the first part, what is left after that part holds the
  interior parts in turn, and what is left then ends with the last part (unless the pattern
  ends with \<^verbatim>\<open>*\<close>). The code checks the first part and does not cut it from the input:
  for the input \<^verbatim>\<open>ab\<close> and the pattern \<^verbatim>\<open>ab*b\<close> it returns true, where nothing is left
  after \<^verbatim>\<open>ab\<close> to end with \<^verbatim>\<open>b\<close>.
\<close>

theorem Glob_prefix_not_consumed:
  "Glob ''ab'' ''ab*b'' = Some True \<and> \<not> Glob_claimed ''ab'' ''ab*b''"
  by code_simp

section \<open>TrimFmt\<close>

subsection \<open>Prefixes and occurrences\<close>

lemma HasPrefix_iff: "HasPrefix s p \<longleftrightarrow> (\<exists>r. s = p @ r)"
proof
  assume "HasPrefix s p"
  then have "s = p @ drop (length p) s"
    by (metis HasPrefix_def append_take_drop_id)
  then show "\<exists>r. s = p @ r" ..
next
  assume "\<exists>r. s = p @ r"
  then show "HasPrefix s p" by (auto simp: HasPrefix_def)
qed

lemma Index_from_shift: "0 \<le> Index_from k s sub \<longleftrightarrow> 0 \<le> Index_from k' s sub"
  by (induction s arbitrary: k k') auto

lemma Contains_Nil: "Contains [] sub \<longleftrightarrow> sub = []"
  by (simp add: Contains_def Index_def)

lemma Contains_Cons: "Contains (c # cs) sub \<longleftrightarrow> HasPrefix (c # cs) sub \<or> Contains cs sub"
  using Index_from_shift [of "Suc 0" cs sub 0] by (simp add: Contains_def Index_def)

lemma Contains_append: "Contains s sub \<Longrightarrow> Contains (a @ s) sub"
proof (induction a)
  case Nil
  then show ?case by simp
next
  case (Cons x a)
  then show ?case by (simp add: Contains_Cons)
qed

lemma Contains_drop: "Contains (drop n s) sub \<Longrightarrow> Contains s sub"
  using Contains_append [of "drop n s" sub "take n s"] by simp

lemma HasPrefix_Contains: "HasPrefix s sub \<Longrightarrow> Contains s sub"
  by (cases s) (auto simp: Contains_Cons Contains_Nil HasPrefix_def)

subsection \<open>Replacing what does not occur\<close>

lemma Replace_absent: "\<not> Contains s old \<Longrightarrow> Replace s old new = s"
  by (induction s) (auto simp: Contains_Cons)

lemma Replace_no_first_byte: "c \<notin> set s \<Longrightarrow> Replace s (c # w) new = s"
proof (induction s)
  case Nil
  then show ?case by simp
next
  case (Cons x s)
  then have "\<not> HasPrefix (x # s) (c # w)" by (auto simp: HasPrefix_iff)
  with Cons show ?case by simp
qed

lemma Replace_skip:
  "c \<notin> set a \<Longrightarrow> Replace (a @ s) (c # w) new = a @ Replace s (c # w) new"
proof (induction a)
  case Nil
  then show ?case by simp
next
  case (Cons x a)
  then have "\<not> HasPrefix (x # a @ s) (c # w)" by (auto simp: HasPrefix_iff)
  with Cons show ?case by simp
qed

lemma Replace_step: "x \<noteq> c \<Longrightarrow> Replace (x # s) (c # w) new = x # Replace s (c # w) new"
  by (auto simp: HasPrefix_iff)

subsection \<open>The early return changes nothing\<close>

lemma replace_aliases_no_brace:
  "CHR ''{'' \<notin> set t \<Longrightarrow> replace_aliases new code as t = t"
  by (induction as arbitrary: t) (simp_all add: replace_aliases_def Replace_no_first_byte)

lemma fold_no_brace:
  "CHR ''{'' \<notin> set t \<Longrightarrow>
     foldl (\<lambda>t code. replace_aliases new code (aliases code) t) t cs = t"
  by (induction cs) (simp_all add: replace_aliases_no_brace)

lemma fmt_run_fold:
  "fmt_run new cs t = foldl (\<lambda>t code. replace_aliases new code (aliases code) t) t cs"
  by (induction cs arbitrary: t) (simp_all add: Let_def fold_no_brace)

lemma replace_aliases_tokens:
  "replace_aliases (\<lambda>code. []) code as t = foldl (\<lambda>t tok. Replace t tok []) t (map token as)"
  by (induction as arbitrary: t) (simp_all add: replace_aliases_def token_def)

lemma fold_codes_tokens:
  "foldl (\<lambda>t code. replace_aliases (\<lambda>code. []) code (aliases code) t) t cs =
     foldl (\<lambda>t tok. Replace t tok []) t (concat (map (\<lambda>code. map token (aliases code)) cs))"
  by (induction cs arbitrary: t) (simp_all add: replace_aliases_tokens)

lemma TrimFmt_tokens: "TrimFmt t = Some (foldl (\<lambda>t tok. Replace t tok []) t tokens)"
  by (simp add: TrimFmt_eq fmt_run_fold fold_codes_tokens tokens_def)

lemma fold_Replace_absent:
  "\<forall>tok \<in> set toks. \<not> Contains t tok \<Longrightarrow> foldl (\<lambda>t tok. Replace t tok new) t toks = t"
  by (induction toks) (simp_all add: Replace_absent)

subsection \<open>Strings without nested braces\<close>

lemma unnested_Cons [simp]:
  "unnested (c # cs) \<longleftrightarrow> (c = CHR ''{'' \<longrightarrow> closes_first cs) \<and> unnested cs"
  by simp

declare unnested.simps(2) [simp del]

lemma unnested_drop: "unnested s \<Longrightarrow> unnested (drop n s)"
proof (induction s arbitrary: n)
  case Nil
  then show ?case by simp
next
  case (Cons c s)
  then show ?case by (cases n) simp_all
qed

lemma closes_first_skip:
  "CHR ''{'' \<notin> set a \<Longrightarrow> CHR ''}'' \<notin> set a \<Longrightarrow> closes_first (a @ s) = closes_first s"
  by (induction a) auto

text \<open>What follows an opening brace that is closed first: a run without braces, and then
  the end of the string or a closing brace.\<close>

lemma closes_first_split:
  assumes "closes_first s"
  obtains a where "s = a" "CHR ''{'' \<notin> set a" "CHR ''}'' \<notin> set a"
  | a r where "s = a @ CHR ''}'' # r" "CHR ''{'' \<notin> set a" "CHR ''}'' \<notin> set a"
proof -
  have "closes_first s \<Longrightarrow>
     (CHR ''{'' \<notin> set s \<and> CHR ''}'' \<notin> set s) \<or>
     (\<exists>a r. s = a @ CHR ''}'' # r \<and> CHR ''{'' \<notin> set a \<and> CHR ''}'' \<notin> set a)"
  proof (induction s)
    case Nil
    then show ?case by simp
  next
    case (Cons c s)
    show ?case
    proof (cases "c = CHR ''}''")
      case True
      then have "c # s = [] @ CHR ''}'' # s" by simp
      then show ?thesis by (metis empty_iff list.set(1))
    next
      case False
      with Cons.prems have nc: "c \<noteq> CHR ''{''" and cf: "closes_first s"
        by (auto split: if_splits)
      from Cons.IH [OF cf] show ?thesis
      proof
        assume "CHR ''{'' \<notin> set s \<and> CHR ''}'' \<notin> set s"
        with False nc show ?thesis by auto
      next
        assume "\<exists>a r. s = a @ CHR ''}'' # r \<and> CHR ''{'' \<notin> set a \<and> CHR ''}'' \<notin> set a"
        then obtain a r where "s = a @ CHR ''}'' # r" "CHR ''{'' \<notin> set a" "CHR ''}'' \<notin> set a"
          by blast
        then have "c # s = (c # a) @ CHR ''}'' # r" "CHR ''{'' \<notin> set (c # a)" "CHR ''}'' \<notin> set (c # a)"
          using False nc by auto
        then show ?thesis by blast
      qed
    qed
  qed
  with assms that show thesis by blast
qed

subsection \<open>Removing a token from a string without nested braces\<close>

lemma first_split_unique:
  "a @ x # r = b @ x # r' \<Longrightarrow> x \<notin> set a \<Longrightarrow> x \<notin> set b \<Longrightarrow> a = b"
proof (induction a arbitrary: b)
  case Nil
  then show ?case by (cases b) auto
next
  case (Cons y a)
  then show ?case by (cases b) auto
qed

lemma Replace_skip_step:
  assumes "c \<notin> set a" and "x \<noteq> c"
  shows "Replace (a @ x # s) (c # w) new = a @ x # Replace s (c # w) new"
proof -
  have "Replace (a @ x # s) (c # w) new = a @ Replace (x # s) (c # w) new"
    using assms(1) by (rule Replace_skip)
  also have "Replace (x # s) (c # w) new = x # Replace s (c # w) new"
    using assms(2) by (rule Replace_step)
  finally show ?thesis .
qed

lemma unnested_Replace:
  "unnested s \<Longrightarrow> unnested (Replace s (CHR ''{'' # x) [])"
proof (induction s rule: length_induct)
  case (1 s)
  let ?tok = "CHR ''{'' # x"
  show ?case
  proof (cases s)
    case Nil
    then show ?thesis by simp
  next
    case (Cons c cs)
    show ?thesis
    proof (cases "HasPrefix (c # cs) ?tok")
      case True
      have "length (drop (length ?tok) s) < length s" using Cons by simp
      moreover have "unnested (drop (length ?tok) s)" using "1.prems" by (rule unnested_drop)
      ultimately have "unnested (Replace (drop (length ?tok) s) ?tok [])"
        using "1.IH" by blast
      then show ?thesis using Cons True by simp
    next
      case False
      from "1.prems" Cons have un: "unnested cs" by simp
      then have IH: "unnested (Replace cs ?tok [])" using "1.IH" Cons by simp
      have "closes_first (Replace cs ?tok [])" if "c = CHR ''{''"
      proof -
        from that "1.prems" Cons have "closes_first cs" by simp
        then show ?thesis
        proof (cases rule: closes_first_split)
          case (1 a)
          then show ?thesis
            using closes_first_skip [of a "[]"] by (simp add: Replace_no_first_byte)
        next
          case (2 a r)
          then have "Replace cs ?tok [] = a @ CHR ''}'' # Replace r ?tok []"
            by (simp only: Replace_skip_step char.simps simp_thms)
          then show ?thesis using 2 by (simp add: closes_first_skip)
        qed
      qed
      then show ?thesis using Cons False IH by simp
    qed
  qed
qed

lemma Contains_Replace:
  assumes "unnested s" and "CHR ''{'' \<notin> set w" and "CHR ''}'' \<notin> set w"
    and "Contains (Replace s (CHR ''{'' # x) []) (CHR ''{'' # w @ ''}'')"
  shows "CHR ''{'' # w @ ''}'' \<noteq> CHR ''{'' # x \<and> Contains s (CHR ''{'' # w @ ''}'')"
  using assms(1,4)
proof (induction s rule: length_induct)
  case (1 s)
  let ?tok = "CHR ''{'' # x"
  let ?t = "CHR ''{'' # w @ ''}''"
  show ?case
  proof (cases s)
    case Nil
    with "1.prems" show ?thesis by (simp add: Contains_Nil)
  next
    case (Cons c cs)
    show ?thesis
    proof (cases "HasPrefix (c # cs) ?tok")
      case True
      have "length (drop (length ?tok) s) < length s" using Cons by simp
      moreover have "unnested (drop (length ?tok) s)" using "1.prems"(1) by (rule unnested_drop)
      moreover have "Contains (Replace (drop (length ?tok) s) ?tok []) ?t"
        using "1.prems"(2) Cons True by simp
      ultimately have "?t \<noteq> ?tok \<and> Contains (drop (length ?tok) s) ?t"
        using "1.IH" by blast
      then show ?thesis using Contains_drop by blast
    next
      case False
      from "1.prems"(1) Cons have un: "unnested cs" by simp
      from "1.prems"(2) Cons False
      have "HasPrefix (c # Replace cs ?tok []) ?t \<or> Contains (Replace cs ?tok []) ?t"
        by (simp add: Contains_Cons)
      then show ?thesis
      proof
        assume "Contains (Replace cs ?tok []) ?t"
        moreover have "length cs < length s" using Cons by simp
        ultimately have "?t \<noteq> ?tok \<and> Contains cs ?t" using un "1.IH" by blast
        then show ?thesis using Cons by (simp add: Contains_Cons)
      next
        assume p: "HasPrefix (c # Replace cs ?tok []) ?t"
        then obtain r where r: "c # Replace cs ?tok [] = ?t @ r"
          by (auto simp: HasPrefix_iff)
        then have c: "c = CHR ''{''" and R: "Replace cs ?tok [] = w @ CHR ''}'' # r"
          by simp_all
        from c "1.prems"(1) Cons have "closes_first cs" by simp
        then have "\<exists>r'. cs = w @ CHR ''}'' # r'"
        proof (cases rule: closes_first_split)
          case (1 a)
          then have "Replace cs ?tok [] = a" by (simp add: Replace_no_first_byte)
          with R 1 show ?thesis by auto
        next
          case (2 a r')
          then have "Replace cs ?tok [] = a @ CHR ''}'' # Replace r' ?tok []"
            by (simp only: Replace_skip_step char.simps simp_thms)
          with R have "a @ CHR ''}'' # Replace r' ?tok [] = w @ CHR ''}'' # r" by simp
          then have "a = w"
            using 2(3) assms(3) by (rule first_split_unique)
          with 2 show ?thesis by blast
        qed
        then obtain r' where "cs = w @ CHR ''}'' # r'" ..
        then have "s = ?t @ r'" using Cons c by simp
        then have hp: "HasPrefix s ?t" by (auto simp: HasPrefix_iff)
        then have "Contains s ?t" by (rule HasPrefix_Contains)
        moreover have "?t \<noteq> ?tok" using hp False Cons by auto
        ultimately show ?thesis by simp
      qed
    qed
  qed
qed

subsection \<open>TrimFmt on a string without nested braces\<close>

lemma aliases_plain:
  "code \<in> set codes \<Longrightarrow> alias \<in> set (aliases code) \<Longrightarrow>
     CHR ''{'' \<notin> set alias \<and> CHR ''}'' \<notin> set alias"
  by (auto simp: codes_def)

lemma tokens_shape:
  assumes "tok \<in> set tokens"
  shows "\<exists>w. tok = CHR ''{'' # w @ ''}'' \<and> CHR ''{'' \<notin> set w \<and> CHR ''}'' \<notin> set w"
proof -
  from assms obtain code a
    where "code \<in> set codes" "a \<in> set (aliases code)" "tok = token a"
    by (auto simp: tokens_def)
  then show ?thesis using aliases_plain [of code a] by (auto simp: token_def)
qed

lemma fold_tokens_invariant:
  assumes "\<forall>tok \<in> set toks.
      \<exists>w. tok = CHR ''{'' # w @ ''}'' \<and> CHR ''{'' \<notin> set w \<and> CHR ''}'' \<notin> set w"
    and "unnested s"
  shows "unnested (foldl (\<lambda>t tok. Replace t tok []) s toks) \<and>
     (\<forall>tok \<in> set toks. \<not> Contains (foldl (\<lambda>t tok. Replace t tok []) s toks) tok)"
  using assms(1)
proof (induction toks rule: rev_induct)
  case Nil
  show ?case using assms(2) by simp
next
  case (snoc x toks)
  let ?u = "foldl (\<lambda>t tok. Replace t tok []) s toks"
  from snoc have un: "unnested ?u" and absent: "\<forall>tok \<in> set toks. \<not> Contains ?u tok"
    by simp_all
  from snoc.prems obtain v where x: "x = CHR ''{'' # v @ ''}''"
    by auto
  have step: "foldl (\<lambda>t tok. Replace t tok []) s (toks @ [x]) = Replace ?u (CHR ''{'' # v @ ''}'') []"
    by (simp add: x)
  have "unnested (Replace ?u (CHR ''{'' # v @ ''}'') [])"
    using un by (rule unnested_Replace)
  moreover have "\<not> Contains (Replace ?u (CHR ''{'' # v @ ''}'') []) tok"
    if "tok \<in> set (toks @ [x])" for tok
  proof
    assume c: "Contains (Replace ?u (CHR ''{'' # v @ ''}'') []) tok"
    from that snoc.prems obtain w
      where w: "tok = CHR ''{'' # w @ ''}''" "CHR ''{'' \<notin> set w" "CHR ''}'' \<notin> set w"
      by blast
    from Contains_Replace [OF un w(2,3) c [unfolded w(1)]]
    have "tok \<noteq> x" and "Contains ?u tok" by (simp_all add: w(1) x)
    with that absent show False by auto
  qed
  ultimately show ?case unfolding step by blast
qed

text \<open>
  Removing a token can bring the pieces of another token together: from \<^verbatim>\<open>{wh{b}ite}\<close>
  the run for \<^verbatim>\<open>{b}\<close>, which comes after the run for \<^verbatim>\<open>{white}\<close>, leaves
  \<^verbatim>\<open>{white}\<close>, and a second call removes it.
\<close>

theorem TrimFmt_not_idempotent:
  "TrimFmt ''{wh{b}ite}'' = Some ''{white}'' \<and> TrimFmt ''{white}'' = Some []"
  by code_simp

text \<open>
  Claim C3, amended. For every string \<open>s\<close> without nested braces (no \<^verbatim>\<open>{\<close> is followed by
  another \<^verbatim>\<open>{\<close> before the next \<^verbatim>\<open>}\<close>), \<^verbatim>\<open>TrimFmt(TrimFmt(s))\<close> equals
  \<^verbatim>\<open>TrimFmt(s)\<close>, and \<^verbatim>\<open>TrimFmt(s)\<close> contains no token \<^verbatim>\<open>{alias}\<close> of the table.
\<close>

theorem TrimFmt_idempotent_unnested:
  assumes "unnested s"
  shows "\<exists>t. TrimFmt s = Some t \<and> TrimFmt t = Some t \<and>
     (\<forall>code \<in> set codes. \<forall>alias \<in> set (aliases code). \<not> Contains t (''{'' @ alias @ ''}''))"
proof -
  let ?t = "foldl (\<lambda>t tok. Replace t tok []) s tokens"
  have absent: "\<forall>tok \<in> set tokens. \<not> Contains ?t tok"
    using fold_tokens_invariant [of tokens s] tokens_shape assms by blast
  then have "foldl (\<lambda>t tok. Replace t tok []) ?t tokens = ?t"
    by (rule fold_Replace_absent)
  then have "TrimFmt ?t = Some ?t"
    by (simp add: TrimFmt_tokens)
  moreover have "\<not> Contains ?t (''{'' @ a @ ''}'')"
    if "code \<in> set codes" "a \<in> set (aliases code)" for code a
  proof -
    from that have "token a \<in> set tokens" by (auto simp: tokens_def)
    with absent show ?thesis by (auto simp: token_def)
  qed
  ultimately show ?thesis by (simp add: TrimFmt_tokens)
qed

theorem TrimFmt_idempotent_unnested_witness:
  "unnested ''{red}{bold}Hello {x} World{c}'' \<and>
   TrimFmt ''{red}{bold}Hello {x} World{c}'' = Some ''Hello {x} World'' \<and>
   TrimFmt ''Hello {x} World'' = Some ''Hello {x} World''"
proof -
  have u: "unnested ''{red}{bold}Hello {x} World{c}''" by simp
  have e: "TrimFmt ''{red}{bold}Hello {x} World{c}'' = Some ''Hello {x} World''" by code_simp
  from TrimFmt_idempotent_unnested [OF u] e show ?thesis using u by auto
qed


end
